theory Spec2Isabelle
  imports Complex_Main
begin


section \<open>Python string primitives\<close>

text \<open>
  Python \<open>str\<close> values are modelled as \<open>string\<close>; a \<open>char\<close> stands for the code point
  of the same number (0..255).  The functions below follow the behaviour of the \<open>str\<close>
  methods used by \<open>listing_scraper.py\<close>.
\<close>

definition py_isspace :: "char \<Rightarrow> bool" where
  \<comment> \<open>\<open>str.isspace\<close> on one character: TAB..CR, FS..US, space, NEL, NBSP.\<close>
  "py_isspace c = (let n = (of_char c :: nat) in
     (9 \<le> n \<and> n \<le> 13) \<or> (28 \<le> n \<and> n \<le> 32) \<or> n = 133 \<or> n = 160)"

definition py_lstrip :: "string \<Rightarrow> string" where
  "py_lstrip s = dropWhile py_isspace s"

definition py_rstrip :: "string \<Rightarrow> string" where
  "py_rstrip s = rev (dropWhile py_isspace (rev s))"

definition py_strip :: "string \<Rightarrow> string" where
  \<comment> \<open>\<open>s.strip()\<close>\<close>
  "py_strip s = py_rstrip (py_lstrip s)"

definition py_lstrip_chars :: "char set \<Rightarrow> string \<Rightarrow> string" where
  \<comment> \<open>\<open>s.lstrip(chars)\<close>\<close>
  "py_lstrip_chars cs s = dropWhile (\<lambda>c. c \<in> cs) s"

definition py_strip_chars :: "char set \<Rightarrow> string \<Rightarrow> string" where
  \<comment> \<open>\<open>s.strip(chars)\<close>\<close>
  "py_strip_chars cs s = rev (dropWhile (\<lambda>c. c \<in> cs) (rev (dropWhile (\<lambda>c. c \<in> cs) s)))"

fun split_ws_acc :: "string \<Rightarrow> string \<Rightarrow> string list" where
  "split_ws_acc cur [] = (if cur = [] then [] else [rev cur])"
| "split_ws_acc cur (c # cs) =
     (if py_isspace c
      then (if cur = [] then split_ws_acc [] cs else rev cur # split_ws_acc [] cs)
      else split_ws_acc (c # cur) cs)"

definition py_split_ws :: "string \<Rightarrow> string list" where
  \<comment> \<open>\<open>s.split()\<close>: the maximal runs of non-whitespace characters\<close>
  "py_split_ws s = split_ws_acc [] s"

fun split_char_acc :: "char \<Rightarrow> string \<Rightarrow> string \<Rightarrow> string list" where
  "split_char_acc sep cur [] = [rev cur]"
| "split_char_acc sep cur (c # cs) =
     (if c = sep then rev cur # split_char_acc sep [] cs else split_char_acc sep (c # cur) cs)"

definition py_split :: "char \<Rightarrow> string \<Rightarrow> string list" where
  \<comment> \<open>\<open>s.split(sep)\<close> for a one-character separator: empty pieces are kept\<close>
  "py_split sep s = split_char_acc sep [] s"

fun py_join :: "string \<Rightarrow> string list \<Rightarrow> string" where
  \<comment> \<open>\<open>sep.join(xs)\<close>\<close>
  "py_join sep [] = []"
| "py_join sep [x] = x"
| "py_join sep (x # y # ys) = x @ sep @ py_join sep (y # ys)"

definition py_lower_char :: "char \<Rightarrow> char" where
  "py_lower_char c = (let n = (of_char c :: nat) in
     if (65 \<le> n \<and> n \<le> 90) \<or> (192 \<le> n \<and> n \<le> 222 \<and> n \<noteq> 215)
     then char_of (n + 32) else c)"

definition py_lower :: "string \<Rightarrow> string" where
  \<comment> \<open>\<open>s.lower()\<close>\<close>
  "py_lower s = map py_lower_char s"

definition py_startswith :: "string \<Rightarrow> string \<Rightarrow> bool" where
  \<comment> \<open>\<open>s.startswith(p)\<close>\<close>
  "py_startswith s p = (take (length p) s = p)"

fun py_contains :: "string \<Rightarrow> string \<Rightarrow> bool" where
  \<comment> \<open>\<open>needle in s\<close>\<close>
  "py_contains needle [] = (needle = [])"
| "py_contains needle (c # cs) = (py_startswith (c # cs) needle \<or> py_contains needle cs)"

section \<open>The document tree\<close>

text \<open>
  A \<open>_DOMNode\<close> owns its children, so the tree built by \<open>_DOMTreeBuilder\<close> is a value of
  the datatype below.  A node object is referred to by its path from the root (the list
  of child indices) together with the subtree found there; the \<open>parent\<close> back-reference
  of the source is the path without its last index.
\<close>

datatype dom_node = DOMNode (tag: string) (attrs: "(string \<times> string) list")
  (children: "dom_node list") (text_parts: "string list")

type_synonym node_ref = "nat list \<times> dom_node"

record dom_tree_builder =
  root_node :: dom_node

definition attrs_get :: "dom_node \<Rightarrow> string \<Rightarrow> string \<Rightarrow> string" where
  \<comment> \<open>\<open>node.attrs.get(key, default)\<close>\<close>
  "attrs_get n k d = (case map_of (attrs n) k of None \<Rightarrow> d | Some v \<Rightarrow> v)"

definition child_refs :: "node_ref \<Rightarrow> node_ref list" where
  \<comment> \<open>\<open>node.children\<close>, each child with its own path\<close>
  "child_refs r = map (\<lambda>(i, c). (fst r @ [i], c)) (enumerate 0 (children (snd r)))"

fun collect :: "dom_node \<Rightarrow> string list" where
  \<comment> \<open>the inner \<open>_collect\<close> of \<open>get_text\<close>\<close>
  "collect (DOMNode t a cs ts) = ts @ concat (map collect cs)"

definition get_text :: "dom_node \<Rightarrow> string" where
  "get_text n = (let pieces = collect n;
                     combined = py_join '' '' pieces;
                     normalized = py_join '' '' (py_split_ws combined)
                 in py_strip normalized)"

lemma map_snd_child_refs: "map snd (child_refs r) = children (snd r)"
proof -
  have "map snd (child_refs r) = map snd (enumerate 0 (children (snd r)))"
    by (simp add: child_refs_def case_prod_beta comp_def)
  then show ?thesis by (simp add: map_snd_enumerate)
qed

lemma sum_list_Suc: "sum_list (map (\<lambda>n. Suc (f n)) xs) = sum_list (map f xs) + length xs"
  by (induction xs) auto

lemma size_children_sum: "sum_list (map size (children n)) < size n"
proof (cases n)
  case (DOMNode t a cs ts)
  have "sum_list (map size cs) \<le> size_list size cs"
    by (induction cs) auto
  then show ?thesis using DOMNode by simp
qed

function iter_dom_descendants :: "node_ref \<Rightarrow> node_ref list" where
  \<comment> \<open>\<open>_iter_dom_descendants\<close>: each child, then that child's descendants\<close>
  "iter_dom_descendants r =
     concat (map (\<lambda>c. c # iter_dom_descendants c) (child_refs r))"
  by pat_completeness auto
termination
proof (relation "measure (\<lambda>r. size (snd r))")
  show "wf (measure (\<lambda>r. size (snd r)))" by simp
next
  fix r :: node_ref and c :: node_ref
  assume "c \<in> set (child_refs r)"
  then have "snd c \<in> set (children (snd r))"
    by (auto simp: child_refs_def in_set_enumerate_eq)
  then have "size (snd c) \<le> sum_list (map size (children (snd r)))"
    by (simp add: member_le_sum_list)
  then show "(c, r) \<in> measure (\<lambda>r. size (snd r))"
    using size_children_sum [of "snd r"] by simp
qed

function iter_descendants_loop :: "string set option \<Rightarrow> node_ref list \<Rightarrow> node_ref list" where
  \<comment> \<open>the \<open>while stack\<close> loop of \<open>_DOMNode.iter_descendants\<close>; the stack's top is its last element\<close>
  "iter_descendants_loop tags stack =
     (if stack = [] then []
      else let node = last stack; stack' = butlast stack
           in (if tags = None \<or> tag (snd node) \<in> the tags then [node] else [])
              @ iter_descendants_loop tags (stack' @ child_refs node))"
  by pat_completeness auto
termination
proof (relation "measure (\<lambda>(tags, stack). sum_list (map (\<lambda>r. Suc (size (snd r))) stack))")
  show "wf (measure (\<lambda>(tags, stack). sum_list (map (\<lambda>r. Suc (size (snd r))) stack)))" by simp
next
  fix tags :: "string set option" and stack :: "node_ref list" and x xa
  assume ne: "stack \<noteq> []" and x: "x = last stack" and xa: "xa = butlast stack"
  have split: "stack = xa @ [x]" using ne x xa by simp
  have "sum_list (map (\<lambda>r. Suc (size (snd r))) (child_refs x))
        = sum_list (map (\<lambda>n. Suc (size n)) (map snd (child_refs x)))"
    by (simp add: comp_def)
  also have "\<dots> = sum_list (map size (children (snd x))) + length (children (snd x))"
    by (simp add: map_snd_child_refs sum_list_Suc)
  also have "\<dots> < Suc (size (snd x))"
  proof (cases "snd x")
    case (DOMNode t a cs ts)
    have "sum_list (map size cs) + length cs = size_list size cs"
      by (induction cs) auto
    then show ?thesis using DOMNode by simp
  qed
  finally show "((tags, xa @ child_refs x), (tags, stack))
        \<in> measure (\<lambda>(tags, stack). sum_list (map (\<lambda>r. Suc (size (snd r))) stack))"
    by (simp add: split)
qed

declare iter_dom_descendants.simps [simp del]
declare iter_descendants_loop.simps [simp del]

definition iter_descendants :: "node_ref \<Rightarrow> string set option \<Rightarrow> node_ref list" where
  \<comment> \<open>\<open>node.iter_descendants(tags)\<close>\<close>
  "iter_descendants r tags = iter_descendants_loop tags (child_refs r)"

fun node_at :: "dom_node \<Rightarrow> nat list \<Rightarrow> dom_node option" where
  \<comment> \<open>the node object found by following child indices from a node\<close>
  "node_at n [] = Some n"
| "node_at n (i # p) = (if i < length (children n) then node_at (children n ! i) p else None)"

definition parent_ref :: "dom_tree_builder \<Rightarrow> node_ref \<Rightarrow> node_ref option" where
  \<comment> \<open>\<open>node.parent\<close>: \<open>None\<close> for the synthetic root\<close>
  "parent_ref b r =
     (if fst r = [] then None
      else (case node_at (root_node b) (butlast (fst r)) of
              None \<Rightarrow> None
            | Some n \<Rightarrow> Some (butlast (fst r), n)))"

function find_ancestor_loop :: "dom_tree_builder \<Rightarrow> node_ref option \<Rightarrow> string set \<Rightarrow> node_ref option" where
  "find_ancestor_loop b None tags = None"
| "find_ancestor_loop b (Some cur) tags =
     (if tag (snd cur) \<in> tags then Some cur
      else find_ancestor_loop b (parent_ref b cur) tags)"
  by pat_completeness auto
termination
  by (relation "measure (\<lambda>(b, cur, tags). case cur of None \<Rightarrow> 0 | Some r \<Rightarrow> Suc (length (fst r)))")
     (auto simp: parent_ref_def split: option.splits if_splits)

definition find_ancestor :: "dom_tree_builder \<Rightarrow> node_ref \<Rightarrow> string set \<Rightarrow> node_ref option" where
  \<comment> \<open>\<open>node.find_ancestor(tags)\<close>\<close>
  "find_ancestor b r tags = find_ancestor_loop b (parent_ref b r) tags"

definition iter_tag :: "dom_tree_builder \<Rightarrow> string \<Rightarrow> node_ref list" where
  \<comment> \<open>\<open>builder.iter_tag(tag)\<close>.  \<open>handle_starttag\<close> appends every new node to \<open>_by_tag\<close>
      when its start tag is read, so the list holds the nodes below the root with that
      tag in the order of their start tags.\<close>
  "iter_tag b t = filter (\<lambda>r. tag (snd r) = py_lower t) (iter_dom_descendants ([], root_node b))"

section \<open>Pricing options\<close>

fun pricing_loop :: "node_ref list \<Rightarrow> string list \<times> string set \<Rightarrow> string list \<times> string set" where
  \<comment> \<open>the \<open>for node in builder.iter_tag("div")\<close> loop; the state is \<open>(options, seen)\<close>\<close>
  "pricing_loop [] st = st"
| "pricing_loop (node # rest) (options, seen) =
     (let role = py_lower (attrs_get (snd node) ''role'' '''') in
      if role \<noteq> ''radio'' then pricing_loop rest (options, seen)
      else let text = get_text (snd node) in
        if text = [] then pricing_loop rest (options, seen)
        else let normalized = py_join '' '' (py_split_ws text) in
          if normalized = [] \<or> normalized \<in> seen then pricing_loop rest (options, seen)
          else pricing_loop rest (options @ [normalized], insert normalized seen))"

definition extract_pricing_options :: "dom_tree_builder option \<Rightarrow> string list" where
  "extract_pricing_options builder =
     (case builder of
        None \<Rightarrow> []
      | Some b \<Rightarrow> fst (pricing_loop (iter_tag b ''div'') ([], {})))"

fun dedup_first :: "'a list \<Rightarrow> 'a list" where
  \<comment> \<open>duplicates removed, the first occurrence of each element kept\<close>
  "dedup_first [] = []"
| "dedup_first (x # xs) = x # dedup_first (filter (\<lambda>y. y \<noteq> x) xs)"

definition radio_divs :: "dom_tree_builder \<Rightarrow> node_ref list" where
  \<comment> \<open>the \<open>div\<close> nodes whose \<open>role\<close> attribute is \<open>radio\<close> in any letter case, in document order\<close>
  "radio_divs b = filter (\<lambda>r. py_lower (attrs_get (snd r) ''role'' '''') = ''radio'')
                    (iter_tag b ''div'')"

definition exact_radio_divs :: "dom_tree_builder \<Rightarrow> node_ref list" where
  \<comment> \<open>the \<open>div\<close> nodes whose \<open>role\<close> attribute is the string \<open>radio\<close> itself\<close>
  "exact_radio_divs b = filter (\<lambda>r. attrs_get (snd r) ''role'' '''' = ''radio'') (iter_tag b ''div'')"

section \<open>Feature sections\<close>

record feature_section =
  fs_heading :: string
  fs_items :: "string list"
  fs_paragraphs :: "string list"

fun harvest_texts :: "nat \<Rightarrow> node_ref list \<Rightarrow> string list \<Rightarrow> string list" where
  \<comment> \<open>the two inner loops of \<open>_extract_dom_features\<close>: collect distinct non-empty texts
      and stop once \<open>cap\<close> of them are held\<close>
  "harvest_texts cap [] acc = acc"
| "harvest_texts cap (n # ns) acc =
     (let text = get_text (snd n) in
      if text \<noteq> [] \<and> text \<notin> set acc
      then (let acc' = acc @ [text] in
            if length acc' \<ge> cap then acc' else harvest_texts cap ns acc')
      else harvest_texts cap ns acc)"

definition or_else :: "'a option \<Rightarrow> 'a \<Rightarrow> 'a" where
  \<comment> \<open>\<open>x or y\<close> for an object-or-None \<open>x\<close>\<close>
  "or_else x y = (case x of None \<Rightarrow> y | Some v \<Rightarrow> v)"

definition container_tags :: "string set" where
  "container_tags = {''section'', ''article'', ''div''}"

definition feature_list_items :: "node_ref \<Rightarrow> string list" where
  \<comment> \<open>the \<open>for li_node in container.iter_descendants({"li"})\<close> loop\<close>
  "feature_list_items container = harvest_texts 12 (iter_descendants container (Some {''li''})) []"

definition feature_paragraphs :: "node_ref \<Rightarrow> string list" where
  \<comment> \<open>the \<open>for p_node in container.iter_descendants({"p"})\<close> loop\<close>
  "feature_paragraphs container = harvest_texts 6 (iter_descendants container (Some {''p''})) []"

fun features_loop :: "dom_tree_builder \<Rightarrow> node_ref list \<Rightarrow> feature_section list \<times> string set
    \<Rightarrow> feature_section list \<times> string set" where
  \<comment> \<open>the \<open>for heading_node in builder.iter_tag("h2")\<close> loop; the state is
      \<open>(feature_sections, seen)\<close>\<close>
  "features_loop b [] st = st"
| "features_loop b (heading_node # rest) (feature_sections, seen) =
     (let heading_text = get_text (snd heading_node) in
      if heading_text = [] \<or> \<not> py_contains ''feature'' (py_lower heading_text)
      then features_loop b rest (feature_sections, seen)
      else let container = or_else (find_ancestor b heading_node container_tags) heading_node;
               list_items = feature_list_items container;
               paragraphs = feature_paragraphs container;
               fingerprint = py_join ''|'' list_items @ ''::'' @ py_join ''|'' paragraphs
           in if fingerprint \<in> seen then features_loop b rest (feature_sections, seen)
              else features_loop b rest
                     (feature_sections @ [\<lparr>fs_heading = py_strip heading_text,
                                           fs_items = list_items,
                                           fs_paragraphs = paragraphs\<rparr>],
                      insert fingerprint seen))"

definition extract_dom_features :: "dom_tree_builder option \<Rightarrow> feature_section list" where
  "extract_dom_features builder =
     (case builder of
        None \<Rightarrow> []
      | Some b \<Rightarrow> take 4 (fst (features_loop b (iter_tag b ''h2'') ([], {}))))"

section \<open>FAQ sections\<close>

record faq_entry =
  question :: string
  answer :: "string option"

record faq_section =
  heading :: string
  entries :: "faq_entry list"

record fallback_entry =
  \<comment> \<open>an entry of \<open>_extract_flight_faq_entries\<close>: both fields are strings\<close>
  fb_question :: string
  fb_answer :: string

definition FAQ_QUESTION_TAGS :: "string set" where
  "FAQ_QUESTION_TAGS = {''h3'', ''h4'', ''summary'', ''button'', ''dt''}"

definition FAQ_ANSWER_TAGS :: "string set" where
  "FAQ_ANSWER_TAGS = {''p'', ''div'', ''span'', ''li'', ''dd'', ''ul'', ''ol'', ''section'',
                      ''article'', ''blockquote''}"

definition FAQ_ANSWER_FALLBACK_MIN_LEN :: nat where
  "FAQ_ANSWER_FALLBACK_MIN_LEN = 24"

definition FAQ_ENTRY_LIMIT :: nat where
  "FAQ_ENTRY_LIMIT = 12"

definition truthy :: "string option \<Rightarrow> bool" where
  \<comment> \<open>the truth value of a \<open>str | None\<close>: neither \<open>None\<close> nor the empty string\<close>
  "truthy x = (case x of None \<Rightarrow> False | Some s \<Rightarrow> s \<noteq> [])"

record faq_state =
  \<comment> \<open>the variables of one heading's walk that \<open>_flush_entry\<close> and the loop update\<close>
  st_entries :: "faq_entry list"
  section_fingerprints :: "(string \<times> string) set"
  current_question_text :: "string option"
  current_answers :: "string list"
  current_answer_seen :: "string set"

definition flush_entry :: "faq_state \<Rightarrow> faq_state" where
  "flush_entry st =
     (if \<not> truthy (current_question_text st)
      then st\<lparr>current_answers := [], current_answer_seen := {}\<rparr>
      else let q = the (current_question_text st);
               answer_text = py_strip (py_join [CHR 0x0A, CHR 0x0A] (current_answers st));
               fingerprint = (q, answer_text);
               st' = (if fingerprint \<notin> section_fingerprints st
                      then st\<lparr>section_fingerprints := insert fingerprint (section_fingerprints st),
                              st_entries := st_entries st @
                                [\<lparr>question = q,
                                  answer = (if answer_text = [] then None else Some answer_text)\<rparr>]\<rparr>
                      else st)
           in st'\<lparr>current_question_text := None, current_answers := [],
                  current_answer_seen := {}\<rparr>)"

definition faq_answer_step :: "string set \<Rightarrow> node_ref \<Rightarrow> faq_state \<Rightarrow> faq_state" where
  \<comment> \<open>the part of the loop body after the question-tag branch; every \<open>continue\<close> leaves
      the state as it is\<close>
  "faq_answer_step question_text_pool node st =
     (if \<not> truthy (current_question_text st) then st
      else let answer_text = get_text (snd node) in
        if answer_text = [] then st
        else let answer_text = py_strip answer_text in
          if answer_text = [] then st
          else if answer_text = the (current_question_text st) then st
          else if answer_text \<in> question_text_pool then st
          else let preferred_tag = (tag (snd node) \<in> FAQ_ANSWER_TAGS) in
            if \<not> preferred_tag \<and> length answer_text < FAQ_ANSWER_FALLBACK_MIN_LEN then st
            else let q = the (current_question_text st);
                     trimmed = py_lstrip_chars (set [CHR '' '', CHR '':'', CHR ''.'', CHR ''-'',
                                                      CHR 0x0A, CHR 0x09])
                                 (drop (length q) answer_text);
                     answer_text = (if py_startswith (py_lower answer_text) (py_lower q)
                                       \<and> trimmed \<noteq> []
                                    then trimmed else answer_text)
                 in if answer_text = [] \<or> answer_text \<in> current_answer_seen st then st
                    else st\<lparr>current_answers := current_answers st @ [answer_text],
                            current_answer_seen := insert answer_text (current_answer_seen st)\<rparr>)"

fun faq_walk :: "string set \<Rightarrow> node_ref list \<Rightarrow> faq_state \<Rightarrow> faq_state" where
  \<comment> \<open>the \<open>for node in _iter_dom_descendants(container)\<close> loop; a \<open>break\<close> returns the state\<close>
  "faq_walk pool [] st = st"
| "faq_walk pool (node # rest) st =
     (if length (st_entries st) \<ge> FAQ_ENTRY_LIMIT then st
      else if tag (snd node) \<in> FAQ_QUESTION_TAGS
      then (let st1 = (if truthy (current_question_text st) then flush_entry st else st) in
            if truthy (current_question_text st) \<and> length (st_entries st1) \<ge> FAQ_ENTRY_LIMIT
            then st1
            else let question_text = get_text (snd node) in
              if question_text = [] then faq_walk pool rest st1
              else faq_walk pool rest
                     (st1\<lparr>current_question_text := Some (py_strip question_text),
                           current_answers := [], current_answer_seen := {}\<rparr>))
      else faq_walk pool rest (faq_answer_step pool node st))"

definition question_text_pool_of :: "node_ref \<Rightarrow> string set" where
  \<comment> \<open>the first loop over \<open>container.iter_descendants(FAQ_QUESTION_TAGS)\<close>\<close>
  "question_text_pool_of container =
     set (map py_strip (filter (\<lambda>t. t \<noteq> [])
            (map (\<lambda>n. get_text (snd n)) (iter_descendants container (Some FAQ_QUESTION_TAGS)))))"

definition faq_entries_of :: "node_ref \<Rightarrow> faq_entry list" where
  \<comment> \<open>the entries collected below one container, with the flush after the loop\<close>
  "faq_entries_of container =
     (let st0 = \<lparr>st_entries = [], section_fingerprints = {}, current_question_text = None,
                  current_answers = [], current_answer_seen = {}\<rparr>;
          st = faq_walk (question_text_pool_of container) (iter_dom_descendants container) st0;
          st = (if truthy (current_question_text st) \<and> length (st_entries st) < FAQ_ENTRY_LIMIT
                then flush_entry st else st)
      in st_entries st)"

definition faq_fingerprint :: "faq_entry list \<Rightarrow> string" where
  "faq_fingerprint es =
     py_join ''|'' (map (\<lambda>e. question e @ ''::'' @ (case answer e of None \<Rightarrow> [] | Some a \<Rightarrow> a))
                        (filter (\<lambda>e. question e \<noteq> []) es))"

fun faqs_loop :: "dom_tree_builder \<Rightarrow> node_ref list \<Rightarrow> faq_section list \<times> string set
    \<Rightarrow> faq_section list \<times> string set" where
  \<comment> \<open>the \<open>for heading_node in builder.iter_tag("h2")\<close> loop; the state is
      \<open>(faq_sections, seen)\<close>\<close>
  "faqs_loop b [] st = st"
| "faqs_loop b (heading_node # rest) (faq_sections, seen) =
     (let heading_text = get_text (snd heading_node) in
      if heading_text = [] \<or> \<not> py_contains ''faq'' (py_lower heading_text)
      then faqs_loop b rest (faq_sections, seen)
      else let container = or_else (find_ancestor b heading_node container_tags) heading_node;
               es = faq_entries_of container;
               fingerprint = faq_fingerprint es
           in if es = [] \<or> fingerprint = [] \<or> fingerprint \<in> seen
              then faqs_loop b rest (faq_sections, seen)
              else faqs_loop b rest
                     (faq_sections @ [\<lparr>heading = py_strip heading_text, entries = es\<rparr>],
                      insert fingerprint seen))"

definition extract_dom_faqs :: "dom_tree_builder option \<Rightarrow> faq_section list" where
  "extract_dom_faqs builder =
     (case builder of
        None \<Rightarrow> []
      | Some b \<Rightarrow> take 3 (fst (faqs_loop b (iter_tag b ''h2'') ([], {}))))"

definition normalize_question :: "string \<Rightarrow> string" where
  "normalize_question text = py_lower (py_strip (py_join '' '' (py_split_ws text)))"




section \<open>URL handling\<close>

text \<open>
  Exceptions are values: \<open>ValueError\<close> with its message, \<open>httpx.HTTPError\<close> (any of its
  subclasses), and any other exception.
\<close>

datatype py_error = ValueError string | HTTPError string | OtherError string

text \<open>
  \<open>urllib.parse\<close> is modelled after the module of CPython 3.10, on strings of code points
  below 256.  \<open>urlsplit\<close> raises \<open>ValueError("Invalid IPv6 URL")\<close> when the authority has
  one square bracket without the other, as every CPython 3 release does.  (\<open>_checknetloc\<close>
  rejects no string of such code points; releases from 3.11.4 on also strip leading
  control characters and validate a bracketed host, which adds further \<open>ValueError\<close>
  cases for authorities in brackets.)
\<close>

record parsed_url =
  scheme :: string
  netloc :: string
  path :: string
  params :: string
  query :: string
  fragment :: string

definition scheme_char :: "char \<Rightarrow> bool" where
  \<comment> \<open>membership in \<open>scheme_chars\<close>: ASCII letters, digits, \<open>+\<close>, \<open>-\<close>, \<open>.\<close>\<close>
  "scheme_char c = (let n = (of_char c :: nat) in
     (97 \<le> n \<and> n \<le> 122) \<or> (65 \<le> n \<and> n \<le> 90) \<or> (48 \<le> n \<and> n \<le> 57)
     \<or> n = 43 \<or> n = 45 \<or> n = 46)"

definition find_char :: "char \<Rightarrow> string \<Rightarrow> nat option" where
  \<comment> \<open>\<open>s.find(c)\<close> for one character: \<open>None\<close> stands for -1\<close>
  "find_char c s = (if c \<in> set s then Some (length (takeWhile (\<lambda>x. x \<noteq> c) s)) else None)"

definition rfind_char :: "char \<Rightarrow> string \<Rightarrow> nat option" where
  \<comment> \<open>\<open>s.rfind(c)\<close>\<close>
  "rfind_char c s =
     (if c \<in> set s then Some (length s - 1 - length (takeWhile (\<lambda>x. x \<noteq> c) (rev s))) else None)"

definition split_once :: "char \<Rightarrow> string \<Rightarrow> string \<times> string" where
  \<comment> \<open>\<open>s.split(c, 1)\<close> for a string that contains \<open>c\<close>: the parts before and after the
      first \<open>c\<close>\<close>
  "split_once c s = (takeWhile (\<lambda>x. x \<noteq> c) s, drop 1 (dropWhile (\<lambda>x. x \<noteq> c) s))"

definition uses_params :: "string set" where
  "uses_params = {'''', ''ftp'', ''hdl'', ''prospero'', ''http'', ''imap'', ''https'', ''shttp'',
                  ''rtsp'', ''rtspu'', ''sip'', ''sips'', ''mms'', ''sftp'', ''tel''}"



definition splitnetloc :: "string \<Rightarrow> string \<times> string" where
  \<comment> \<open>\<open>_splitnetloc(url, 2)\<close>: the authority ends at the first \<open>/\<close>, \<open>?\<close> or \<open>#\<close>\<close>
  "splitnetloc url =
     (let rest = drop 2 url;
          stop = (\<lambda>c. c = CHR ''/'' \<or> c = CHR ''?'' \<or> c = CHR ''#'')
      in (takeWhile (\<lambda>c. \<not> stop c) rest, dropWhile (\<lambda>c. \<not> stop c) rest))"

definition urlsplit :: "string \<Rightarrow> string \<Rightarrow> py_error + parsed_url" where
  \<comment> \<open>\<open>urlsplit(url, scheme)\<close>; \<open>params\<close> stays empty here\<close>
  "urlsplit url0 scheme0 =
     (let unsafe = (\<lambda>c. c = CHR 0x09 \<or> c = CHR 0x0D \<or> c = CHR 0x0A);
          url = filter (\<lambda>c. \<not> unsafe c) url0;
          scheme1 = filter (\<lambda>c. \<not> unsafe c) scheme0;
          (scheme2, url) =
            (case find_char CHR '':'' url of
               None \<Rightarrow> (scheme1, url)
             | Some i \<Rightarrow>
                 if i > 0 \<and> list_all scheme_char (take i url)
                 then (py_lower (take i url), drop (i + 1) url)
                 else (scheme1, url));
          (netloc1, url) = (if take 2 url = ''//'' then splitnetloc url else ('''', url))
      in if (CHR ''['' \<in> set netloc1 \<and> CHR '']'' \<notin> set netloc1)
            \<or> (CHR '']'' \<in> set netloc1 \<and> CHR ''['' \<notin> set netloc1)
         then Inl (ValueError ''Invalid IPv6 URL'')
         else let (url, fragment1) =
                    (if CHR ''#'' \<in> set url then split_once CHR ''#'' url else (url, ''''));
                  (url, query1) =
                    (if CHR ''?'' \<in> set url then split_once CHR ''?'' url else (url, ''''))
              in Inr \<lparr>scheme = scheme2, netloc = netloc1, path = url, params = '''',
                      query = query1, fragment = fragment1\<rparr>)"

definition splitparams :: "string \<Rightarrow> string \<times> string" where
  \<comment> \<open>\<open>_splitparams(url)\<close> for a \<open>url\<close> that contains \<open>;\<close>\<close>
  "splitparams url =
     (case rfind_char CHR ''/'' url of
        Some k \<Rightarrow>
          (case find_char CHR '';'' (drop k url) of
             None \<Rightarrow> (url, '''')
           | Some j \<Rightarrow> (take (k + j) url, drop (k + j + 1) url))
      | None \<Rightarrow>
          (case find_char CHR '';'' url of
             None \<Rightarrow> (url, '''')
           | Some i \<Rightarrow> (take i url, drop (i + 1) url)))"

definition urlparse_scheme :: "string \<Rightarrow> string \<Rightarrow> py_error + parsed_url" where
  \<comment> \<open>\<open>urlparse(url, scheme)\<close>\<close>
  "urlparse_scheme url scheme0 =
     (case urlsplit url scheme0 of
        Inl e \<Rightarrow> Inl e
      | Inr r \<Rightarrow>
          if scheme r \<in> uses_params \<and> CHR '';'' \<in> set (path r)
          then (let (url', params') = splitparams (path r)
                in Inr (r\<lparr>path := url', params := params'\<rparr>))
          else Inr r)"

definition urlparse :: "string \<Rightarrow> py_error + parsed_url" where
  \<comment> \<open>\<open>urlparse(url)\<close>\<close>
  "urlparse url = urlparse_scheme url ''''"




section \<open>Target normalisation and profile links\<close>


definition target_candidate :: "string \<Rightarrow> string" where
  \<comment> \<open>the candidate URL of \<open>_normalize_target\<close> for a stripped, non-empty target:
      the \<open>if "://" not in candidate\<close> block\<close>
  "target_candidate candidate =
     (if \<not> py_contains ''://'' candidate
      then (let normalized = py_lstrip_chars {CHR ''/''} candidate;
                normalized = (if py_startswith (py_lower normalized) ''whop.com/''
                              then snd (split_once CHR ''/'' normalized)
                              else normalized)
            in ''https://whop.com/'' @ py_lstrip_chars {CHR ''/''} normalized)
      else candidate)"

definition normalize_target :: "string \<Rightarrow> py_error + (string \<times> string)" where
  "normalize_target target =
     (let candidate = py_strip target in
      if candidate = [] then Inl (ValueError ''Target URL or slug cannot be empty.'')
      else let candidate = target_candidate candidate
           in case urlparse candidate of
                Inl e \<Rightarrow> Inl e
              | Inr parsed \<Rightarrow>
                  if scheme parsed \<notin> {''http'', ''https''}
                  then Inl (ValueError (''Unsupported scheme in target: '' @ candidate))
                  else let p = py_strip_chars {CHR ''/''} (path parsed);
                           slug = (if p \<noteq> [] then last (py_split CHR ''/'' p) else netloc parsed)
                       in Inr (candidate, slug))"



section \<open>Review summaries\<close>
























section \<open>The streamed-payload scanner\<close>

text \<open>
  JSON values as \<open>json.loads\<close> returns them.  Numbers are modelled as integers, a dict as
  the list of its items.
\<close>

datatype json = JNull | JBool bool | JInt int | JStr string | JArr "json list"
  | JObj "(string \<times> json) list"

definition NEXT_FLIGHT_NEEDLE :: string where
  "NEXT_FLIGHT_NEEDLE = ''self.__next_f.push([''"

definition DQUOTE :: char where
  \<comment> \<open>the double quote\<close>
  "DQUOTE = CHR 0x22"

definition BACKSLASH :: char where
  "BACKSLASH = CHR 0x5C"

fun find_sub :: "string \<Rightarrow> string \<Rightarrow> nat \<Rightarrow> nat option" where
  \<comment> \<open>the first position, counted from \<open>k\<close>, at which \<open>needle\<close> starts in the string\<close>
  "find_sub needle [] k = (if needle = [] then Some k else None)"
| "find_sub needle (c # cs) k =
     (if py_startswith (c # cs) needle then Some k else find_sub needle cs (Suc k))"

definition py_find :: "string \<Rightarrow> string \<Rightarrow> nat \<Rightarrow> nat option" where
  \<comment> \<open>\<open>s.find(needle, pos)\<close>: \<open>None\<close> stands for -1\<close>
  "py_find s needle pos = (if pos > length s then None else find_sub needle (drop pos s) pos)"

definition py_slice :: "string \<Rightarrow> nat \<Rightarrow> nat \<Rightarrow> string" where
  \<comment> \<open>\<open>s[i:j]\<close> for indices that are not negative\<close>
  "py_slice s i j = drop i (take j s)"

function skip_js_string_loop :: "string \<Rightarrow> nat \<Rightarrow> nat" where
  \<comment> \<open>the \<open>while i < length\<close> loop of \<open>_skip_js_string\<close> and the \<open>return\<close> after it\<close>
  "skip_js_string_loop source i =
     (if i < length source
      then (let char = source ! i in
            if char = BACKSLASH then skip_js_string_loop source (i + 2)
            else if char = DQUOTE then i
            else skip_js_string_loop source (i + 1))
      else length source - 1)"
  by pat_completeness auto
termination
  by (relation "measure (\<lambda>(source, i). length source - i)") auto

declare skip_js_string_loop.simps [simp del]

definition skip_js_string :: "string \<Rightarrow> nat \<Rightarrow> nat" where
  \<comment> \<open>\<open>_skip_js_string(source, start)\<close>, called with \<open>start < len(source)\<close>\<close>
  "skip_js_string source start = skip_js_string_loop source (start + 1)"

lemma skip_js_string_loop_range:
  "skip_js_string_loop source i = length source - 1
   \<or> (i \<le> skip_js_string_loop source i \<and> skip_js_string_loop source i < length source)"
proof (induction source i rule: skip_js_string_loop.induct)
  case (1 source i)
  show ?case
  proof (cases "i < length source")
    case False
    then show ?thesis by (subst skip_js_string_loop.simps) simp
  next
    case True
    show ?thesis
    proof (cases "source ! i = BACKSLASH")
      case b: True
      have "skip_js_string_loop source i = skip_js_string_loop source (i + 2)"
        using True b by (subst skip_js_string_loop.simps) simp
      then show ?thesis using "1.IH"(1) [OF True refl b] by auto
    next
      case nb: False
      show ?thesis
      proof (cases "source ! i = DQUOTE")
        case q: True
        have "skip_js_string_loop source i = i"
          using True nb q by (subst skip_js_string_loop.simps) simp
        then show ?thesis using True by simp
      next
        case nq: False
        have "skip_js_string_loop source i = skip_js_string_loop source (i + 1)"
          using True nb nq by (subst skip_js_string_loop.simps) simp
        then show ?thesis using "1.IH"(2) [OF True refl nb nq] by auto
      qed
    qed
  qed
qed

lemma skip_js_string_bounds:
  "start < length source \<Longrightarrow>
   start \<le> skip_js_string source start \<and> skip_js_string source start < length source"
  using skip_js_string_loop_range [of source "start + 1"] by (auto simp: skip_js_string_def)

function flight_depth_loop :: "string \<Rightarrow> nat \<Rightarrow> nat \<Rightarrow> nat \<times> nat" where
  \<comment> \<open>the \<open>while i < length and depth > 0\<close> loop of \<open>_iter_next_flight_payloads\<close>; the
      result is \<open>(i, depth)\<close> when the loop is left\<close>
  "flight_depth_loop html i depth =
     (if i < length html \<and> depth > 0
      then (let char = html ! i in
            if char = DQUOTE then flight_depth_loop html (skip_js_string html i + 1) depth
            else if char = CHR ''['' then flight_depth_loop html (i + 1) (depth + 1)
            else if char = CHR '']''
            then (if depth - 1 = 0 then (i, 0) else flight_depth_loop html (i + 1) (depth - 1))
            else flight_depth_loop html (i + 1) depth)
      else (i, depth))"
  by pat_completeness auto
termination
proof (relation "measure (\<lambda>(html, i, depth). length html - i)", goal_cases)
  case 1
  then show ?case by simp
next
  case (2 html i depth char)
  then show ?case using skip_js_string_bounds [of i html] by auto
qed auto

declare flight_depth_loop.simps [simp del]

function flight_literals :: "(string \<Rightarrow> py_error + json) \<Rightarrow> string \<Rightarrow> nat \<Rightarrow> nat \<Rightarrow> string list" where
  \<comment> \<open>the \<open>while j <= block_end\<close> loop; the first argument is \<open>json.loads\<close>.  The loop runs
      with \<open>block_end < len(html)\<close>.\<close>
  "flight_literals loads html j block_end =
     (if j \<le> block_end \<and> j < length html
      then (if html ! j = DQUOTE
            then (let end = skip_js_string html j;
                      literal = py_slice html j (end + 1);
                      decoded = (case loads literal of Inr (JStr s) \<Rightarrow> [s] | _ \<Rightarrow> [])
                  in decoded @ flight_literals loads html (end + 1) block_end)
            else flight_literals loads html (j + 1) block_end)
      else [])"
  by pat_completeness auto
termination
proof (relation "measure (\<lambda>(loads, html, j, block_end). length html - j)", goal_cases)
  case 1
  then show ?case by simp
next
  case (2 loads html j block_end x)
  then show ?case using skip_js_string_bounds [of j html] by auto
qed auto

declare flight_literals.simps [simp del]

lemma flight_depth_loop_ge: "i \<le> fst (flight_depth_loop html i depth)"
proof (induction html i depth rule: flight_depth_loop.induct)
  case (1 html i depth)
  show ?case
  proof (cases "i < length html \<and> depth > 0")
    case False
    then have "flight_depth_loop html i depth = (i, depth)"
      by (subst flight_depth_loop.simps) auto
    then show ?thesis by simp
  next
    case True
    note IH = "1.IH" [OF True refl]
    have s: "i \<le> skip_js_string html i" using True skip_js_string_bounds [of i html] by simp
    consider (q) "html ! i = DQUOTE"
      | (ob) "html ! i \<noteq> DQUOTE" "html ! i = CHR ''[''"
      | (cb0) "html ! i \<noteq> DQUOTE" "html ! i \<noteq> CHR ''[''" "html ! i = CHR '']''" "depth - 1 = 0"
      | (cb) "html ! i \<noteq> DQUOTE" "html ! i \<noteq> CHR ''[''" "html ! i = CHR '']''" "depth - 1 \<noteq> 0"
      | (other) "html ! i \<noteq> DQUOTE" "html ! i \<noteq> CHR ''[''" "html ! i \<noteq> CHR '']''"
      by blast
    then show ?thesis
    proof cases
      case q
      have "flight_depth_loop html i depth = flight_depth_loop html (skip_js_string html i + 1) depth"
        using True q by (subst flight_depth_loop.simps) simp
      then show ?thesis using IH(1) [OF q] s by simp
    next
      case ob
      have "flight_depth_loop html i depth = flight_depth_loop html (i + 1) (depth + 1)"
        using True ob by (subst flight_depth_loop.simps) simp
      then show ?thesis using IH(2) [OF ob] by simp
    next
      case cb0
      have "flight_depth_loop html i depth = (i, 0)"
        using True cb0 by (subst flight_depth_loop.simps) simp
      then show ?thesis by simp
    next
      case cb
      have "flight_depth_loop html i depth = flight_depth_loop html (i + 1) (depth - 1)"
        using True cb by (subst flight_depth_loop.simps) simp
      then show ?thesis using IH(3) [OF cb] by simp
    next
      case other
      have "flight_depth_loop html i depth = flight_depth_loop html (i + 1) depth"
        using True other by (subst flight_depth_loop.simps) simp
      then show ?thesis using IH(4) [OF other] by simp
    qed
  qed
qed

lemma startswith_length: "py_startswith xs needle \<Longrightarrow> length needle \<le> length xs"
proof -
  assume "py_startswith xs needle"
  then have "take (length needle) xs = needle" by (simp only: py_startswith_def)
  then have "length (take (length needle) xs) = length needle" by (rule arg_cong)
  then show ?thesis by (simp only: length_take)
qed

lemma find_sub_bounds:
  "find_sub needle xs k = Some r \<Longrightarrow>
   k \<le> r \<and> (r - k) + length needle \<le> length xs \<and> take (length needle) (drop (r - k) xs) = needle"
proof (induction xs arbitrary: k)
  case Nil
  then show ?case by (auto split: if_splits)
next
  case (Cons c cs)
  show ?case
  proof (cases "py_startswith (c # cs) needle")
    case True
    from True Cons.prems have "r = k" by simp
    then show ?thesis using True startswith_length [OF True] by (simp add: py_startswith_def)
  next
    case False
    then have "find_sub needle cs (Suc k) = Some r" using Cons.prems by simp
    from Cons.IH [OF this] have "Suc k \<le> r" "(r - Suc k) + length needle \<le> length cs"
      "take (length needle) (drop (r - Suc k) cs) = needle" by auto
    moreover from \<open>Suc k \<le> r\<close> have "r - k = Suc (r - Suc k)" by arith
    ultimately show ?thesis by simp
  qed
qed
lemma flight_depth_loop_closed:
  "flight_depth_loop html i depth = (j, 0) \<Longrightarrow> 0 < depth \<Longrightarrow> j < length html"
proof (induction html i depth rule: flight_depth_loop.induct)
  case (1 html i depth)
  show ?case
  proof (cases "i < length html \<and> depth > 0")
    case False
    then have "flight_depth_loop html i depth = (i, depth)"
      by (subst flight_depth_loop.simps) auto
    then show ?thesis using "1.prems" by simp
  next
    case True
    note IH = "1.IH" [OF True refl]
    consider (q) "html ! i = DQUOTE"
      | (ob) "html ! i \<noteq> DQUOTE" "html ! i = CHR ''[''"
      | (cb0) "html ! i \<noteq> DQUOTE" "html ! i \<noteq> CHR ''[''" "html ! i = CHR '']''" "depth - 1 = 0"
      | (cb) "html ! i \<noteq> DQUOTE" "html ! i \<noteq> CHR ''[''" "html ! i = CHR '']''" "depth - 1 \<noteq> 0"
      | (other) "html ! i \<noteq> DQUOTE" "html ! i \<noteq> CHR ''[''" "html ! i \<noteq> CHR '']''"
      by blast
    then show ?thesis
    proof cases
      case q
      have "flight_depth_loop html i depth = flight_depth_loop html (skip_js_string html i + 1) depth"
        using True q by (subst flight_depth_loop.simps) simp
      then show ?thesis using IH(1) [OF q] "1.prems" by simp
    next
      case ob
      have "flight_depth_loop html i depth = flight_depth_loop html (i + 1) (depth + 1)"
        using True ob by (subst flight_depth_loop.simps) simp
      then show ?thesis using IH(2) [OF ob] "1.prems" by simp
    next
      case cb0
      have "flight_depth_loop html i depth = (i, 0)"
        using True cb0 by (subst flight_depth_loop.simps) simp
      then show ?thesis using True "1.prems" by simp
    next
      case cb
      have "flight_depth_loop html i depth = flight_depth_loop html (i + 1) (depth - 1)"
        using True cb by (subst flight_depth_loop.simps) simp
      then show ?thesis using IH(3) [OF cb] "1.prems" cb(4) by simp
    next
      case other
      have "flight_depth_loop html i depth = flight_depth_loop html (i + 1) depth"
        using True other by (subst flight_depth_loop.simps) simp
      then show ?thesis using IH(4) [OF other] "1.prems" by simp
    qed
  qed
qed

lemma py_find_bounds:
  "py_find s needle pos = Some k \<Longrightarrow>
   pos \<le> k \<and> k + length needle \<le> length s \<and> py_slice s k (k + length needle) = needle"
proof -
  assume a: "py_find s needle pos = Some k"
  then have p: "pos \<le> length s" and f: "find_sub needle (drop pos s) pos = Some k"
    by (auto simp: py_find_def split: if_splits)
  from find_sub_bounds [OF f]
  have 1: "pos \<le> k" and 2: "(k - pos) + length needle \<le> length s - pos"
    and 3: "take (length needle) (drop (k - pos) (drop pos s)) = needle" by auto
  have "py_slice s k (k + length needle) = take (length needle) (drop k s)"
    by (simp add: py_slice_def drop_take)
  then show ?thesis using 1 2 3 p by (simp add: add.commute)
qed

lemma flight_loop_decreases:
  assumes "py_find html needle pos = Some start"
    and "(i, 0) = flight_depth_loop html (start + length needle) (Suc 0)"
  shows "length html - i < Suc (length html) - pos"
proof -
  from py_find_bounds [OF assms(1)] have a: "pos \<le> start" by simp
  have d: "flight_depth_loop html (start + length needle) (Suc 0) = (i, 0)"
    using assms(2) by simp
  have "start + length needle \<le> i"
    using flight_depth_loop_ge [of "start + length needle" html "Suc 0"] by (simp add: d)
  moreover have "i < length html" using flight_depth_loop_closed [OF d] by simp
  ultimately show ?thesis using a by arith
qed

function flight_loop :: "(string \<Rightarrow> py_error + json) \<Rightarrow> string \<Rightarrow> nat \<Rightarrow> string list" where
  \<comment> \<open>the \<open>while True\<close> loop of \<open>_iter_next_flight_payloads\<close>; the result lists what the
      generator yields\<close>
  "flight_loop loads html pos =
     (case py_find html NEXT_FLIGHT_NEEDLE pos of
        None \<Rightarrow> []
      | Some start \<Rightarrow>
          (case flight_depth_loop html (start + length NEXT_FLIGHT_NEEDLE) 1 of
             (i, depth) \<Rightarrow>
               if depth \<noteq> 0 then []
               else let block_start = start + length ''self.__next_f.push('';
                        block_end = i
                    in flight_literals loads html block_start block_end
                       @ flight_loop loads html (i + 1)))"
  by pat_completeness auto
termination
  by (relation "measure (\<lambda>(loads, html, pos). length html + 1 - pos)")
     (auto intro: flight_loop_decreases)

declare flight_loop.simps [simp del]

definition iter_next_flight_payloads :: "(string \<Rightarrow> py_error + json) \<Rightarrow> string \<Rightarrow> string list" where
  \<comment> \<open>\<open>list(_iter_next_flight_payloads(html))\<close>\<close>
  "iter_next_flight_payloads loads html =
     (if \<not> py_contains NEXT_FLIGHT_NEEDLE html then [] else flight_loop loads html 0)"

definition quote_escaped :: "string \<Rightarrow> nat \<Rightarrow> bool" where
  \<comment> \<open>the \<open>while back >= 0 and payload[back] == "\\"\<close> loop: whether the number of
      backslashes right before position \<open>i\<close> is odd\<close>
  "quote_escaped payload i = odd (length (takeWhile (\<lambda>c. c = BACKSLASH) (rev (take i payload))))"

function array_scan :: "string \<Rightarrow> nat \<Rightarrow> nat \<Rightarrow> bool \<Rightarrow> nat option" where
  \<comment> \<open>the \<open>while i < length\<close> loop of \<open>_extract_json_arrays_from_text\<close> with the state
      \<open>(i, depth, in_string)\<close>: the position of the \<open>break\<close>, or \<open>None\<close> when the loop ends
      at the end of the text\<close>
  "array_scan payload i depth in_string =
     (if i < length payload
      then (let char = payload ! i in
            if char = DQUOTE
            then array_scan payload (i + 1) depth
                   (if quote_escaped payload i then in_string else \<not> in_string)
            else if \<not> in_string
            then (if char = CHR ''['' then array_scan payload (i + 1) (depth + 1) in_string
                  else if char = CHR '']''
                  then (if depth - 1 = 0 then Some i
                        else array_scan payload (i + 1) (depth - 1) in_string)
                  else array_scan payload (i + 1) depth in_string)
            else array_scan payload (i + 1) depth in_string)
      else None)"
  by pat_completeness auto
termination
  by (relation "measure (\<lambda>(payload, i, depth, in_string). length payload - i)") auto

declare array_scan.simps [simp del]

lemma array_scan_bounds: "array_scan payload i depth in_string = Some j \<Longrightarrow> i \<le> j \<and> j < length payload"
proof (induction payload i depth in_string rule: array_scan.induct)
  case (1 payload i depth in_string)
  show ?case
  proof (cases "i < length payload")
    case False
    then show ?thesis using "1.prems" by (subst (asm) array_scan.simps) simp
  next
    case True
    from "1.prems" have
      "(let char = payload ! i in
            if char = DQUOTE
            then array_scan payload (i + 1) depth
                   (if quote_escaped payload i then in_string else \<not> in_string)
            else if \<not> in_string
            then (if char = CHR ''['' then array_scan payload (i + 1) (depth + 1) in_string
                  else if char = CHR '']''
                  then (if depth - 1 = 0 then Some i
                        else array_scan payload (i + 1) (depth - 1) in_string)
                  else array_scan payload (i + 1) depth in_string)
            else array_scan payload (i + 1) depth in_string) = Some j"
      using True by (subst (asm) array_scan.simps) simp
    then show ?thesis
      using True "1.IH" [OF True refl]
      by (auto simp: Let_def split: if_splits intro: Suc_leD)
  qed
qed

lemma arrays_loop_decreases:
  assumes "py_find payload key idx = Some idx'"
    and "py_find payload bracket (idx' + length key) = Some start"
    and "array_scan payload start 0 False = Some i"
  shows "length payload - i < Suc (length payload) - idx"
proof -
  from py_find_bounds [OF assms(1)] py_find_bounds [OF assms(2)] array_scan_bounds [OF assms(3)]
  have "idx \<le> idx'" "idx' + length key \<le> start" "start \<le> i" "i < length payload" by simp_all
  then show ?thesis by arith
qed

lemma arrays_loop_decreases_end:
  assumes "py_find payload key idx = Some idx'"
  shows "idx < Suc (length payload)"
proof -
  from py_find_bounds [OF assms] have "idx \<le> idx'" "idx' + length key \<le> length payload"
    by simp_all
  then show ?thesis by arith
qed

function arrays_loop :: "string \<Rightarrow> string \<Rightarrow> nat \<Rightarrow> string list" where
  \<comment> \<open>the \<open>while True\<close> loop of \<open>_extract_json_arrays_from_text\<close> with the state \<open>idx\<close>\<close>
  "arrays_loop payload key idx =
     (case py_find payload key idx of
        None \<Rightarrow> []
      | Some idx' \<Rightarrow>
          (case py_find payload ''['' (idx' + length key) of
             None \<Rightarrow> []
           | Some start \<Rightarrow>
               (case array_scan payload start 0 False of
                  Some i \<Rightarrow> py_slice payload start (i + 1) # arrays_loop payload key (i + 1)
                | None \<Rightarrow> arrays_loop payload key (length payload + 1))))"
  by pat_completeness auto
termination
  by (relation "measure (\<lambda>(payload, key, idx). length payload + 1 - idx)")
     (auto intro: arrays_loop_decreases arrays_loop_decreases_end)

declare arrays_loop.simps [simp del]

definition extract_json_arrays_from_text :: "string \<Rightarrow> string \<Rightarrow> string list" where
  \<comment> \<open>\<open>list(_extract_json_arrays_from_text(payload, key))\<close>\<close>
  "extract_json_arrays_from_text payload key = arrays_loop payload key 0"

definition json_get :: "json \<Rightarrow> string \<Rightarrow> json option" where
  \<comment> \<open>\<open>value.get(key)\<close> for a value that is a dict\<close>
  "json_get v k = (case v of JObj kvs \<Rightarrow> map_of kvs k | _ \<Rightarrow> None)"

fun flight_entries_of_data :: "json list \<Rightarrow> fallback_entry list \<times> string set
    \<Rightarrow> fallback_entry list \<times> string set" where
  \<comment> \<open>the \<open>for entry in data\<close> loop of \<open>_extract_flight_faq_entries\<close>; the state is
      \<open>(entries, seen)\<close>\<close>
  "flight_entries_of_data [] st = st"
| "flight_entries_of_data (entry # rest) (es, seen) =
     (case (json_get entry ''question'', json_get entry ''answer'') of
        (Some (JStr q), Some (JStr a)) \<Rightarrow>
          let normalized = normalize_question q in
          if normalized \<noteq> [] \<and> normalized \<notin> seen
          then flight_entries_of_data rest
                 (es @ [\<lparr>fb_question = py_strip q, fb_answer = py_strip a\<rparr>],
                  insert normalized seen)
          else flight_entries_of_data rest (es, seen)
      | _ \<Rightarrow> flight_entries_of_data rest (es, seen))"

fun flight_entries_of_arrays :: "(string \<Rightarrow> py_error + json) \<Rightarrow> string list
    \<Rightarrow> fallback_entry list \<times> string set \<Rightarrow> fallback_entry list \<times> string set" where
  \<comment> \<open>the \<open>for array_text in ...\<close> loop\<close>
  "flight_entries_of_arrays loads [] st = st"
| "flight_entries_of_arrays loads (array_text # rest) st =
     (case loads array_text of
        Inr (JArr data) \<Rightarrow>
          flight_entries_of_arrays loads rest (flight_entries_of_data data st)
      | _ \<Rightarrow> flight_entries_of_arrays loads rest st)"

fun flight_entries_of_payloads :: "(string \<Rightarrow> py_error + json) \<Rightarrow> string list
    \<Rightarrow> fallback_entry list \<times> string set \<Rightarrow> fallback_entry list \<times> string set" where
  \<comment> \<open>the \<open>for payload in _iter_next_flight_payloads(html)\<close> loop\<close>
  "flight_entries_of_payloads loads [] st = st"
| "flight_entries_of_payloads loads (payload # rest) st =
     (let key = [DQUOTE] @ ''faq'' @ [DQUOTE] @ '':'' in
      if \<not> py_contains key payload then flight_entries_of_payloads loads rest st
      else flight_entries_of_payloads loads rest
             (flight_entries_of_arrays loads (extract_json_arrays_from_text payload key) st))"

definition extract_flight_faq_entries :: "(string \<Rightarrow> py_error + json) \<Rightarrow> string \<Rightarrow> fallback_entry list" where
  "extract_flight_faq_entries loads html =
     fst (flight_entries_of_payloads loads (iter_next_flight_payloads loads html) ([], {}))"

section \<open>Notions used in the statements\<close>

definition tag_matches :: "string set option \<Rightarrow> node_ref \<Rightarrow> bool" where
  \<comment> \<open>the test \<open>tags is None or node.tag in tags\<close>\<close>
  "tag_matches tags r = (tags = None \<or> tag (snd r) \<in> the tags)"

fun path_before :: "nat list \<Rightarrow> nat list \<Rightarrow> bool" where
  \<comment> \<open>document order on node paths: a node precedes its descendants, and the subtree of
      an earlier sibling precedes the subtree of a later one\<close>
  "path_before [] [] = False"
| "path_before [] (j # q) = True"
| "path_before (i # p) [] = False"
| "path_before (i # p) (j # q) = (i < j \<or> (i = j \<and> path_before p q))"

definition is_word :: "string \<Rightarrow> bool" where
  \<comment> \<open>a non-empty string without whitespace\<close>
  "is_word w = (w \<noteq> [] \<and> list_all (\<lambda>c. \<not> py_isspace c) w)"

definition pricing_text :: "node_ref \<Rightarrow> string option" where
  \<comment> \<open>the text one iteration of the pricing loop offers for insertion, if any\<close>
  "pricing_text r =
     (if py_lower (attrs_get (snd r) ''role'' '''') = ''radio'' \<and> get_text (snd r) \<noteq> []
         \<and> py_join '' '' (py_split_ws (get_text (snd r))) \<noteq> []
      then Some (py_join '' '' (py_split_ws (get_text (snd r)))) else None)"

definition pricing_example :: dom_tree_builder where
  \<comment> \<open>\<open><div role="RADIO">Monthly</div>\<close>\<close>
  "pricing_example =
     \<lparr>root_node = DOMNode ''_root'' [] [DOMNode ''div'' [(''role'', ''RADIO'')] [] [''Monthly'']] []\<rparr>"

definition features_example :: node_ref where
  \<comment> \<open>\<open><div><h2>Features</h2><ul><li>A</li><li>B</li></ul><p>x</p><p>y</p></div>\<close>\<close>
  "features_example =
     ([0], DOMNode ''div'' []
        [DOMNode ''h2'' [] [] [''Features''],
         DOMNode ''ul'' [] [DOMNode ''li'' [] [] [''A''], DOMNode ''li'' [] [] [''B'']] [],
         DOMNode ''p'' [] [] [''x''],
         DOMNode ''p'' [] [] [''y'']] [])"

definition entry_fp :: "faq_entry \<Rightarrow> string \<times> string" where
  \<comment> \<open>the fingerprint \<open>_flush_entry\<close> records for an entry\<close>
  "entry_fp e = (question e, case answer e of None \<Rightarrow> [] | Some a \<Rightarrow> a)"

definition faq_inv :: "faq_state \<Rightarrow> bool" where
  \<comment> \<open>the invariant of the walk below one FAQ heading\<close>
  "faq_inv st =
     (length (st_entries st) \<le> FAQ_ENTRY_LIMIT
      \<and> distinct (map entry_fp (st_entries st))
      \<and> section_fingerprints st = set (map entry_fp (st_entries st))
      \<and> list_all (\<lambda>e. question e \<noteq> [] \<and> answer e \<noteq> Some []) (st_entries st))"

definition faq_entries_ok :: "faq_entry list \<Rightarrow> bool" where
  \<comment> \<open>at most 12 entries, pairwise different (question, answer) pairs, no empty question\<close>
  "faq_entries_ok es =
     (length es \<le> 12
      \<and> distinct (map (\<lambda>e. (question e, answer e)) es)
      \<and> list_all (\<lambda>e. question e \<noteq> []) es)"













definition empty_target_error :: py_error where
  \<comment> \<open>the error of the first \<open>raise\<close> of \<open>_normalize_target\<close>\<close>
  "empty_target_error = ValueError ''Target URL or slug cannot be empty.''"

definition unsupported_scheme_error :: "string \<Rightarrow> py_error" where
  \<comment> \<open>the error of the second \<open>raise\<close> of \<open>_normalize_target\<close>\<close>
  "unsupported_scheme_error candidate = ValueError (''Unsupported scheme in target: '' @ candidate)"







section \<open>Evaluation rules for concrete documents\<close>

lemma iter_dom_descendants_Node [code]:
  "iter_dom_descendants (p, DOMNode t a cs ts) =
     concat (map (\<lambda>c. c # iter_dom_descendants c) (child_refs (p, DOMNode t a cs ts)))"
  by (rule iter_dom_descendants.simps)

lemma iter_descendants_loop_Nil: "iter_descendants_loop tags [] = []"
  by (subst iter_descendants_loop.simps) simp

lemma iter_descendants_loop_Cons:
  "iter_descendants_loop tags (x # xs) =
     (let node = last (x # xs); stack' = butlast (x # xs)
      in (if tags = None \<or> tag (snd node) \<in> the tags then [node] else [])
         @ iter_descendants_loop tags (stack' @ child_refs node))"
  by (subst iter_descendants_loop.simps) simp

lemmas dom_eval = iter_dom_descendants_Node iter_descendants_loop_Nil iter_descendants_loop_Cons
  iter_descendants_def child_refs_def iter_tag_def get_text_def py_strip_def py_lstrip_def
  py_rstrip_def py_split_ws_def py_isspace_def py_lower_def py_lower_char_def attrs_get_def
  Let_def char_of_def bit_0


section \<open>Whitespace normalisation\<close>

lemma split_ws_acc_words:
  "list_all (\<lambda>c. \<not> py_isspace c) cur \<Longrightarrow> list_all is_word (split_ws_acc cur s)"
proof (induction s arbitrary: cur)
  case Nil
  then show ?case by (auto simp: is_word_def list_all_iff)
next
  case (Cons a s)
  show ?case
  proof (cases "py_isspace a")
    case True
    have "is_word (rev cur)" if "cur \<noteq> []"
      using that Cons.prems by (simp add: is_word_def list_all_iff)
    then show ?thesis using True Cons.IH [of "[]"] by simp
  next
    case False
    then show ?thesis using Cons.IH [of "a # cur"] Cons.prems by simp
  qed
qed

lemma py_split_ws_words: "list_all is_word (py_split_ws s)"
  using split_ws_acc_words [of "[]" s] by (simp add: py_split_ws_def)

lemma split_ws_acc_word:
  "list_all (\<lambda>c. \<not> py_isspace c) w \<Longrightarrow> split_ws_acc cur (w @ s) = split_ws_acc (rev w @ cur) s"
  by (induction w arbitrary: cur) auto

lemma space_isspace: "py_isspace CHR '' ''"
  by (simp add: py_isspace_def)

lemma split_join_words:
  "list_all is_word ws \<Longrightarrow> py_split_ws (py_join '' '' ws) = ws"
proof (induction ws rule: induct_list012)
  case 1
  then show ?case by (simp add: py_split_ws_def)
next
  case (2 x)
  then show ?case
    using split_ws_acc_word [of x "[]" "[]"] by (simp add: py_split_ws_def is_word_def)
next
  case (3 x y ys)
  then have IH: "py_split_ws (py_join '' '' (y # ys)) = y # ys" by simp
  have x: "list_all (\<lambda>c. \<not> py_isspace c) x" "x \<noteq> []"
    using 3(3) by (auto simp: is_word_def)
  have "py_split_ws (py_join '' '' (x # y # ys))
        = split_ws_acc [] (x @ CHR '' '' # py_join '' '' (y # ys))"
    by (simp add: py_split_ws_def)
  also have "\<dots> = split_ws_acc (rev x) (CHR '' '' # py_join '' '' (y # ys))"
    using split_ws_acc_word [OF x(1), of "[]"] by simp
  also have "\<dots> = x # py_split_ws (py_join '' '' (y # ys))"
    using x(2) by (simp add: space_isspace py_split_ws_def)
  finally show ?case using IH by simp
qed

lemma join_words_ends:
  "list_all is_word ws \<Longrightarrow> ws \<noteq> [] \<Longrightarrow>
   py_join '' '' ws \<noteq> [] \<and> \<not> py_isspace (hd (py_join '' '' ws))
     \<and> \<not> py_isspace (last (py_join '' '' ws))"
proof (induction ws rule: induct_list012)
  case 1
  then show ?case by simp
next
  case (2 x)
  then show ?case by (auto simp: is_word_def list_all_iff)
next
  case (3 x y ys)
  then show ?case by (auto simp: is_word_def list_all_iff)
qed

lemma strip_join_words:
  assumes "list_all is_word ws"
  shows "py_strip (py_join '' '' ws) = py_join '' '' ws"
proof (cases "ws = []")
  case True
  then show ?thesis by (simp add: py_strip_def py_lstrip_def py_rstrip_def)
next
  case False
  let ?s = "py_join '' '' ws"
  from join_words_ends [OF assms False]
  have ne: "?s \<noteq> []" and h: "\<not> py_isspace (hd ?s)" and l: "\<not> py_isspace (last ?s)"
    by auto
  have 1: "dropWhile py_isspace ?s = ?s" using ne h by (cases ?s) auto
  have 2: "dropWhile py_isspace (rev ?s) = rev ?s"
    using ne l by (cases "rev ?s") (auto simp: last_rev hd_rev)
  show ?thesis by (simp add: py_strip_def py_lstrip_def py_rstrip_def 1 2)
qed

lemma get_text_words: "get_text n = py_join '' '' (py_split_ws (py_join '' '' (collect n)))"
  by (simp add: get_text_def Let_def strip_join_words [OF py_split_ws_words])

lemma get_text_normalized: "py_join '' '' (py_split_ws (get_text n)) = get_text n"
  by (simp add: get_text_words split_join_words [OF py_split_ws_words])

lemma get_text_strip: "py_strip (get_text n) = get_text n"
  by (simp add: get_text_words strip_join_words [OF py_split_ws_words])

section \<open>Pricing options (C8)\<close>

lemma pricing_loop_step:
  "pricing_loop (n # ns) (opts, seen) =
     (case pricing_text n of
        None \<Rightarrow> pricing_loop ns (opts, seen)
      | Some t \<Rightarrow> if t \<in> seen then pricing_loop ns (opts, seen)
                  else pricing_loop ns (opts @ [t], insert t seen))"
  by (simp add: pricing_text_def Let_def)

lemma filter_notin_snoc:
  "filter (\<lambda>y. y \<notin> set opts \<and> y \<noteq> t) xs = filter (\<lambda>y. y \<notin> set (opts @ [t])) xs"
  by (induction xs) auto

lemma pricing_loop_eq:
  "fst (pricing_loop ns (opts, set opts)) =
     opts @ dedup_first (filter (\<lambda>t. t \<notin> set opts) (List.map_filter pricing_text ns))"
proof (induction ns arbitrary: opts)
  case Nil
  then show ?case by (simp add: List.map_filter_simps)
next
  case (Cons n ns)
  show ?case
  proof (cases "pricing_text n")
    case None
    then show ?thesis using Cons.IH [of opts]
      by (simp add: pricing_loop_step List.map_filter_simps del: pricing_loop.simps)
  next
    case (Some t)
    show ?thesis
    proof (cases "t \<in> set opts")
      case True
      then show ?thesis using Some Cons.IH [of opts]
        by (simp add: pricing_loop_step List.map_filter_simps del: pricing_loop.simps)
    next
      case False
      have "insert t (set opts) = set (opts @ [t])" by simp
      then have "fst (pricing_loop ns (opts @ [t], insert t (set opts)))
            = (opts @ [t]) @ dedup_first (filter (\<lambda>y. y \<notin> set (opts @ [t]))
                                           (List.map_filter pricing_text ns))"
        using Cons.IH [of "opts @ [t]"] by simp
      then show ?thesis using Some False
        by (simp add: pricing_loop_step List.map_filter_simps filter_notin_snoc
              del: pricing_loop.simps set_append)
    qed
  qed
qed

lemma pricing_candidates:
  "List.map_filter pricing_text ns =
     filter (\<lambda>t. t \<noteq> [])
       (map (\<lambda>r. get_text (snd r))
          (filter (\<lambda>r. py_lower (attrs_get (snd r) ''role'' '''') = ''radio'') ns))"
  by (induction ns) (auto simp: List.map_filter_simps pricing_text_def get_text_normalized)

text \<open>
  C8 (as amended).  With no tree the pricing extractor returns the empty list.  With a
  tree it returns the non-empty whitespace-normalised texts of the \<open>div\<close> nodes whose
  \<open>role\<close> attribute, lower-cased, is \<open>radio\<close>, in document order, every duplicate after
  the first occurrence removed.
\<close>

theorem pricing_options_radio_divs:
  "extract_pricing_options None = [] \<and>
   extract_pricing_options (Some b) =
     dedup_first (filter (\<lambda>t. t \<noteq> []) (map (\<lambda>r. get_text (snd r)) (radio_divs b)))"
proof -
  have "fst (pricing_loop (iter_tag b ''div'') ([], set [])) =
          dedup_first (List.map_filter pricing_text (iter_tag b ''div''))"
    by (subst pricing_loop_eq) simp
  then show ?thesis
    by (simp add: extract_pricing_options_def radio_divs_def pricing_candidates)
qed

text \<open>
  C8 as stated fails: a \<open>div\<close> whose role is written \<open>RADIO\<close> is not a node whose role
  attribute is exactly \<open>radio\<close>, yet its text is returned.
\<close>

theorem pricing_options_exact_role_counterexample:
  "extract_pricing_options (Some pricing_example) = [''Monthly''] \<and>
   exact_radio_divs pricing_example = []"
  by (simp add: extract_pricing_options_def exact_radio_divs_def pricing_example_def dom_eval)

section \<open>Traversal order (C9)\<close>

lemma loop_snoc:
  "iter_descendants_loop tags (xs @ [x]) =
     (if tag_matches tags x then [x] else []) @ iter_descendants_loop tags (xs @ child_refs x)"
  by (subst iter_descendants_loop.simps) (simp add: tag_matches_def)

lemma loop_append:
  "iter_descendants_loop tags (s1 @ s2) =
     iter_descendants_loop tags s2 @ iter_descendants_loop tags s1"
proof (induction tags s2 arbitrary: s1 rule: iter_descendants_loop.induct)
  case (1 tags stack)
  show ?case
  proof (cases "stack = []")
    case True
    then show ?thesis by (simp add: iter_descendants_loop_Nil)
  next
    case False
    then obtain xs x where st: "stack = xs @ [x]" by (metis rev_exhaust)
    have IH: "iter_descendants_loop tags (s1 @ xs @ child_refs x)
            = iter_descendants_loop tags (xs @ child_refs x) @ iter_descendants_loop tags s1"
      using "1.IH" [OF False refl refl, of s1] st by simp
    have "iter_descendants_loop tags (s1 @ stack) = iter_descendants_loop tags ((s1 @ xs) @ [x])"
      by (simp add: st)
    also have "\<dots> = (if tag_matches tags x then [x] else [])
                     @ iter_descendants_loop tags ((s1 @ xs) @ child_refs x)"
      by (rule loop_snoc)
    also have "\<dots> = iter_descendants_loop tags (xs @ [x]) @ iter_descendants_loop tags s1"
      using IH by (simp add: loop_snoc)
    finally show ?thesis by (simp add: st)
  qed
qed

lemma loop_concat:
  "iter_descendants_loop tags stack =
     concat (map (\<lambda>c. (if tag_matches tags c then [c] else [])
                        @ iter_descendants_loop tags (child_refs c)) (rev stack))"
proof (induction stack rule: rev_induct)
  case Nil
  then show ?case by (simp add: iter_descendants_loop_Nil)
next
  case (snoc x xs)
  have "iter_descendants_loop tags (xs @ [x]) =
        (if tag_matches tags x then [x] else []) @ iter_descendants_loop tags (child_refs x)
          @ iter_descendants_loop tags xs"
    by (subst loop_snoc, subst loop_append) simp
  then show ?case using snoc by simp
qed

lemma iter_descendants_unfold:
  "iter_descendants r tags =
     concat (map (\<lambda>c. (if tag_matches tags c then [c] else []) @ iter_descendants c tags)
                 (rev (child_refs r)))"
  unfolding iter_descendants_def by (rule loop_concat)

lemma iter_descendants_set:
  "set (iter_descendants r tags) = {n \<in> set (iter_dom_descendants r). tag_matches tags n}"
proof (induction r rule: iter_dom_descendants.induct)
  case (1 r)
  have "set (iter_descendants r tags) =
          (\<Union>c \<in> set (child_refs r). {n. n = c \<and> tag_matches tags c} \<union> set (iter_descendants c tags))"
    by (subst iter_descendants_unfold) auto
  also have "\<dots> = (\<Union>c \<in> set (child_refs r). {n. n = c \<and> tag_matches tags c}
                        \<union> {n \<in> set (iter_dom_descendants c). tag_matches tags n})"
    using 1 by simp
  also have "\<dots> = {n \<in> set (iter_dom_descendants r). tag_matches tags n}"
    by (subst (2) iter_dom_descendants.simps) auto
  finally show ?case .
qed

lemma iter_descendants_rev:
  "(\<forall>n \<in> set (iter_dom_descendants r). tag_matches tags n \<longrightarrow> iter_descendants n tags = [])
   \<Longrightarrow> iter_descendants r tags = rev (filter (tag_matches tags) (iter_dom_descendants r))"
proof (induction r rule: iter_dom_descendants.induct)
  case (1 r)
  have sub: "set (iter_dom_descendants c) \<subseteq> set (iter_dom_descendants r)"
            "c \<in> set (iter_dom_descendants r)"
    if "c \<in> set (child_refs r)" for c
  proof -
    show "set (iter_dom_descendants c) \<subseteq> set (iter_dom_descendants r)"
      using that by (subst (2) iter_dom_descendants.simps) auto
    show "c \<in> set (iter_dom_descendants r)"
      using that by (subst iter_dom_descendants.simps) auto
  qed
  have IH: "iter_descendants c tags = rev (filter (tag_matches tags) (iter_dom_descendants c))"
    if "c \<in> set (child_refs r)" for c
    using "1.IH" [OF that] "1.prems" sub [OF that] by blast
  have leaf: "(if tag_matches tags c then [c] else []) @ iter_descendants c tags
      = rev (filter (tag_matches tags) (c # iter_dom_descendants c))"
    if "c \<in> set (child_refs r)" for c
  proof (cases "tag_matches tags c")
    case True
    then have "iter_descendants c tags = []" using "1.prems" sub(2) [OF that] by blast
    then show ?thesis using True IH [OF that] by simp
  next
    case False
    then show ?thesis using IH [OF that] by simp
  qed
  have "iter_descendants r tags =
          concat (map (\<lambda>c. rev (filter (tag_matches tags) (c # iter_dom_descendants c)))
                      (rev (child_refs r)))"
  proof -
    have "map (\<lambda>c. (if tag_matches tags c then [c] else []) @ iter_descendants c tags)
              (rev (child_refs r))
        = map (\<lambda>c. rev (filter (tag_matches tags) (c # iter_dom_descendants c)))
              (rev (child_refs r))"
      by (rule map_cong [OF refl]) (use leaf in auto)
    then show ?thesis by (subst iter_descendants_unfold) (simp only:)
  qed
  also have "\<dots> = rev (filter (tag_matches tags)
                        (concat (map (\<lambda>c. c # iter_dom_descendants c) (child_refs r))))"
    by (simp add: rev_concat filter_concat rev_map comp_def)
  finally show ?case by (subst iter_dom_descendants.simps)
qed

lemma path_before_append: "path_before (p @ a) (p @ b) = path_before a b"
  by (induction p) auto

lemma descendants_paths:
  "x \<in> set (iter_dom_descendants r) \<Longrightarrow> \<exists>q. q \<noteq> [] \<and> fst x = fst r @ q"
proof (induction r arbitrary: x rule: iter_dom_descendants.induct)
  case (1 r)
  from "1.prems" obtain c where c: "c \<in> set (child_refs r)"
    and x: "x = c \<or> x \<in> set (iter_dom_descendants c)"
    by (subst (asm) iter_dom_descendants.simps) auto
  from c obtain i where ci: "fst c = fst r @ [i]"
    by (auto simp: child_refs_def in_set_enumerate_eq)
  from x show ?case
  proof
    assume "x = c" then show ?thesis using ci by auto
  next
    assume "x \<in> set (iter_dom_descendants c)"
    from "1.IH" [OF c this] obtain q where "fst x = fst c @ q" by auto
    then show ?thesis using ci by auto
  qed
qed

lemma sorted_wrt_concat_map_enum:
  assumes "\<And>i. i < length xs \<Longrightarrow> sorted_wrt P (f (k + i, xs ! i))"
    and "\<And>i j x y. i < j \<Longrightarrow> j < length xs \<Longrightarrow> x \<in> set (f (k + i, xs ! i))
          \<Longrightarrow> y \<in> set (f (k + j, xs ! j)) \<Longrightarrow> P x y"
  shows "sorted_wrt P (concat (map f (enumerate k xs)))"
  using assms
proof (induction xs arbitrary: k)
  case Nil
  then show ?case by simp
next
  case (Cons a xs)
  have 1: "sorted_wrt P (f (k, a))" using Cons.prems(1) [of 0] by simp
  have 2: "sorted_wrt P (concat (map f (enumerate (Suc k) xs)))"
  proof (rule Cons.IH)
    fix i assume "i < length xs"
    then show "sorted_wrt P (f (Suc k + i, xs ! i))" using Cons.prems(1) [of "Suc i"] by simp
  next
    fix i j x y
    assume "i < j" "j < length xs" "x \<in> set (f (Suc k + i, xs ! i))"
      "y \<in> set (f (Suc k + j, xs ! j))"
    then show "P x y" using Cons.prems(2) [of "Suc i" "Suc j" x y] by simp
  qed
  have 3: "P x y"
    if "x \<in> set (f (k, a))" "y \<in> set (concat (map f (enumerate (Suc k) xs)))" for x y
  proof -
    from that(2) obtain p where p: "p \<in> set (enumerate (Suc k) xs)" "y \<in> set (f p)" by auto
    define j where "j = fst p - Suc k"
    from p(1) have "j < length xs" "p = (Suc k + j, xs ! j)"
      by (auto simp: in_set_enumerate_eq j_def prod_eq_iff)
    with p(2) have j: "j < length xs" "y \<in> set (f (Suc k + j, xs ! j))" by auto
    show ?thesis using Cons.prems(2) [of 0 "Suc j" x y] that(1) j by simp
  qed
  show ?case using 1 2 3 by (auto simp: sorted_wrt_append)
qed

lemma iter_dom_descendants_sorted:
  "sorted_wrt path_before (map fst (iter_dom_descendants r))"
proof (induction r rule: iter_dom_descendants.induct)
  case (1 r)
  let ?f = "\<lambda>(i, c). map fst ((fst r @ [i], c) # iter_dom_descendants (fst r @ [i], c))"
  have eq: "map fst (iter_dom_descendants r) = concat (map ?f (enumerate 0 (children (snd r))))"
    by (subst iter_dom_descendants.simps)
       (simp add: child_refs_def map_concat comp_def case_prod_unfold)
  have mem: "(fst r @ [i], children (snd r) ! i) \<in> set (child_refs r)"
    if "i < length (children (snd r))" for i
    using that
    by (auto simp: child_refs_def in_set_enumerate_eq
             intro!: image_eqI [where x = "(i, children (snd r) ! i)"])
  have below: "\<exists>q. x = fst r @ [i] @ q" if "x \<in> set (?f (i, c))" for x i c
    using that descendants_paths [of _ "(fst r @ [i], c)"] by auto
  show ?case unfolding eq
  proof (rule sorted_wrt_concat_map_enum)
    fix i assume i: "i < length (children (snd r))"
    have "\<forall>x \<in> set (iter_dom_descendants (fst r @ [i], children (snd r) ! i)).
            path_before (fst r @ [i]) (fst x)"
    proof
      fix x assume "x \<in> set (iter_dom_descendants (fst r @ [i], children (snd r) ! i))"
      from descendants_paths [OF this]
      obtain q where "q \<noteq> []" "fst x = (fst r @ [i]) @ q" by auto
      then show "path_before (fst r @ [i]) (fst x)"
        using path_before_append [of "fst r @ [i]" "[]" q] by (cases q) auto
    qed
    then show "sorted_wrt path_before (?f (0 + i, children (snd r) ! i))"
      using "1.IH" [OF mem [OF i]] by auto
  next
    fix i j x y
    assume ij: "i < j" and "j < length (children (snd r))"
      and x: "x \<in> set (?f (0 + i, children (snd r) ! i))"
      and y: "y \<in> set (?f (0 + j, children (snd r) ! j))"
    from below [OF x] obtain q where q: "x = fst r @ [0 + i] @ q" by auto
    from below [OF y] obtain q' where q': "y = fst r @ [0 + j] @ q'" by auto
    show "path_before x y" using ij by (simp add: q q' path_before_append)
  qed
qed

lemma harvest_texts_eq:
  "length acc < cap \<Longrightarrow>
   harvest_texts cap ns acc =
     take cap (acc @ dedup_first (filter (\<lambda>t. t \<notin> set acc)
                 (filter (\<lambda>t. t \<noteq> []) (map (\<lambda>r. get_text (snd r)) ns))))"
proof (induction ns arbitrary: acc)
  case Nil
  then show ?case by simp
next
  case (Cons n ns)
  let ?t = "get_text (snd n)"
  show ?case
  proof (cases "?t \<noteq> [] \<and> ?t \<notin> set acc")
    case False
    then show ?thesis using Cons.IH [OF Cons.prems] by auto
  next
    case True
    have flt: "filter (\<lambda>y. y \<noteq> ?t) (filter (\<lambda>t. t \<notin> set acc) xs)
             = filter (\<lambda>t. t \<notin> set (acc @ [?t])) xs" for xs
      by (induction xs) auto
    show ?thesis
    proof (cases "length (acc @ [?t]) \<ge> cap")
      case full: True
      then have "cap - length acc = Suc 0" using Cons.prems by simp
      then show ?thesis using True full by (simp add: Let_def)
    next
      case notfull: False
      then have "length (acc @ [?t]) < cap" by simp
      from Cons.IH [OF this] show ?thesis using True notfull flt
        by (simp add: Let_def del: set_append filter_filter)
    qed
  qed
qed

text \<open>
  C9.  \<open>_DOMNode.iter_descendants\<close> visits the children of a node last to first: its
  output is, for the children taken from the last to the first, the child (when its tag
  is asked for) followed by the output for that child; the nodes it yields are the
  matching nodes among the descendants.  \<open>_iter_dom_descendants\<close> yields the descendants
  in document order.  When no matching node lies inside another matching node (sibling
  list items, sibling paragraphs), \<open>iter_descendants\<close> yields the matching nodes in
  reverse document order, and the feature extractor collects the list items (at most 12)
  and the paragraphs (at most 6) in that reversed order.
\<close>

theorem iter_descendants_last_to_first:
  "iter_descendants r tags =
     concat (map (\<lambda>c. (if tag_matches tags c then [c] else []) @ iter_descendants c tags)
                 (rev (child_refs r)))
   \<and> set (iter_descendants r tags) = {n \<in> set (iter_dom_descendants r). tag_matches tags n}
   \<and> sorted_wrt path_before (map fst (iter_dom_descendants r))
   \<and> ((\<forall>n \<in> set (iter_dom_descendants r).
          tag_matches (Some {''li''}) n \<longrightarrow> iter_descendants n (Some {''li''}) = []) \<longrightarrow>
        iter_descendants r (Some {''li''})
          = rev (filter (tag_matches (Some {''li''})) (iter_dom_descendants r))
        \<and> feature_list_items r
          = take 12 (dedup_first (filter (\<lambda>t. t \<noteq> []) (map (\<lambda>n. get_text (snd n))
              (rev (filter (tag_matches (Some {''li''})) (iter_dom_descendants r)))))))
   \<and> ((\<forall>n \<in> set (iter_dom_descendants r).
          tag_matches (Some {''p''}) n \<longrightarrow> iter_descendants n (Some {''p''}) = []) \<longrightarrow>
        iter_descendants r (Some {''p''})
          = rev (filter (tag_matches (Some {''p''})) (iter_dom_descendants r))
        \<and> feature_paragraphs r
          = take 6 (dedup_first (filter (\<lambda>t. t \<noteq> []) (map (\<lambda>n. get_text (snd n))
              (rev (filter (tag_matches (Some {''p''})) (iter_dom_descendants r)))))))"
proof (intro conjI impI)
  show "iter_descendants r tags =
     concat (map (\<lambda>c. (if tag_matches tags c then [c] else []) @ iter_descendants c tags)
                 (rev (child_refs r)))"
    by (rule iter_descendants_unfold)
  show "set (iter_descendants r tags) = {n \<in> set (iter_dom_descendants r). tag_matches tags n}"
    by (rule iter_descendants_set)
  show "sorted_wrt path_before (map fst (iter_dom_descendants r))"
    by (rule iter_dom_descendants_sorted)
next
  assume a: "\<forall>n \<in> set (iter_dom_descendants r).
          tag_matches (Some {''li''}) n \<longrightarrow> iter_descendants n (Some {''li''}) = []"
  show li: "iter_descendants r (Some {''li''})
          = rev (filter (tag_matches (Some {''li''})) (iter_dom_descendants r))"
    by (rule iter_descendants_rev [OF a])
  show "feature_list_items r
          = take 12 (dedup_first (filter (\<lambda>t. t \<noteq> []) (map (\<lambda>n. get_text (snd n))
              (rev (filter (tag_matches (Some {''li''})) (iter_dom_descendants r))))))"
    unfolding feature_list_items_def li by (subst harvest_texts_eq) simp_all
next
  assume a: "\<forall>n \<in> set (iter_dom_descendants r).
          tag_matches (Some {''p''}) n \<longrightarrow> iter_descendants n (Some {''p''}) = []"
  show p: "iter_descendants r (Some {''p''})
          = rev (filter (tag_matches (Some {''p''})) (iter_dom_descendants r))"
    by (rule iter_descendants_rev [OF a])
  show "feature_paragraphs r
          = take 6 (dedup_first (filter (\<lambda>t. t \<noteq> []) (map (\<lambda>n. get_text (snd n))
              (rev (filter (tag_matches (Some {''p''})) (iter_dom_descendants r))))))"
    unfolding feature_paragraphs_def p by (subst harvest_texts_eq) simp_all
qed

lemma features_example_descendants:
  "iter_dom_descendants features_example =
     [([0, 0], DOMNode ''h2'' [] [] [''Features'']),
      ([0, 1], DOMNode ''ul'' [] [DOMNode ''li'' [] [] [''A''], DOMNode ''li'' [] [] [''B'']] []),
      ([0, 1, 0], DOMNode ''li'' [] [] [''A'']),
      ([0, 1, 1], DOMNode ''li'' [] [] [''B'']),
      ([0, 2], DOMNode ''p'' [] [] [''x'']),
      ([0, 3], DOMNode ''p'' [] [] [''y''])]"
  by (simp add: features_example_def dom_eval)

theorem iter_descendants_last_to_first_witness:
  "iter_descendants features_example (Some {''li''})
     = [([0, 1, 1], DOMNode ''li'' [] [] [''B'']), ([0, 1, 0], DOMNode ''li'' [] [] [''A''])]
   \<and> feature_list_items features_example = [''B'', ''A'']
   \<and> feature_paragraphs features_example = [''y'', ''x'']"
proof -
  have li: "\<forall>n \<in> set (iter_dom_descendants features_example).
          tag_matches (Some {''li''}) n \<longrightarrow> iter_descendants n (Some {''li''}) = []"
    by (simp add: features_example_descendants tag_matches_def dom_eval)
  have p: "\<forall>n \<in> set (iter_dom_descendants features_example).
          tag_matches (Some {''p''}) n \<longrightarrow> iter_descendants n (Some {''p''}) = []"
    by (simp add: features_example_descendants tag_matches_def dom_eval)
  from iter_descendants_last_to_first [of features_example "Some {''li''}"] li p
  have "iter_descendants features_example (Some {''li''})
          = rev (filter (tag_matches (Some {''li''})) (iter_dom_descendants features_example))"
    and "feature_list_items features_example
          = take 12 (dedup_first (filter (\<lambda>t. t \<noteq> []) (map (\<lambda>n. get_text (snd n))
              (rev (filter (tag_matches (Some {''li''})) (iter_dom_descendants features_example))))))"
    and "feature_paragraphs features_example
          = take 6 (dedup_first (filter (\<lambda>t. t \<noteq> []) (map (\<lambda>n. get_text (snd n))
              (rev (filter (tag_matches (Some {''p''})) (iter_dom_descendants features_example))))))"
    by blast+
  then show ?thesis
    by (simp add: features_example_descendants tag_matches_def get_text_def py_strip_def
          py_lstrip_def py_rstrip_def py_split_ws_def py_isspace_def Let_def)
qed

section \<open>DOM FAQ extraction (C3)\<close>

lemma flush_entry_inv:
  "faq_inv st \<Longrightarrow> length (st_entries st) < FAQ_ENTRY_LIMIT \<Longrightarrow> faq_inv (flush_entry st)"
  by (auto simp: faq_inv_def flush_entry_def Let_def truthy_def entry_fp_def split: option.splits)

lemma faq_answer_step_entries:
  "st_entries (faq_answer_step pool n st) = st_entries st
   \<and> section_fingerprints (faq_answer_step pool n st) = section_fingerprints st"
  by (simp add: faq_answer_step_def Let_def)

lemma faq_answer_step_inv: "faq_inv st \<Longrightarrow> faq_inv (faq_answer_step pool n st)"
  by (simp add: faq_inv_def faq_answer_step_entries)

lemma faq_inv_update:
  "faq_inv st \<Longrightarrow> faq_inv (st\<lparr>current_question_text := q, current_answers := a, current_answer_seen := s\<rparr>)"
  by (simp add: faq_inv_def)

lemma faq_walk_inv: "faq_inv st \<Longrightarrow> faq_inv (faq_walk pool ns st)"
proof (induction ns arbitrary: st)
  case Nil
  then show ?case by simp
next
  case (Cons n ns)
  show ?case
  proof (cases "length (st_entries st) \<ge> FAQ_ENTRY_LIMIT")
    case True
    then show ?thesis using Cons.prems by simp
  next
    case False
    then have lt: "length (st_entries st) < FAQ_ENTRY_LIMIT" by simp
    define st1 where "st1 = (if truthy (current_question_text st) then flush_entry st else st)"
    have st1: "faq_inv st1"
      using Cons.prems flush_entry_inv [OF Cons.prems lt] by (simp add: st1_def)
    show ?thesis
    proof (cases "tag (snd n) \<in> FAQ_QUESTION_TAGS")
      case True
      then show ?thesis
        using False st1 Cons.IH [OF st1] Cons.IH [OF faq_inv_update [OF st1]]
        by (simp add: Let_def flip: st1_def)
    next
      case nq: False
      then show ?thesis
        using False Cons.IH [OF faq_answer_step_inv [OF Cons.prems]] by simp
    qed
  qed
qed

lemma distinct_map_inner: "distinct (map (\<lambda>x. g (h x)) xs) \<Longrightarrow> distinct (map h xs)"
  by (induction xs) auto

lemma faq_inv_entries_ok: "faq_inv st \<Longrightarrow> faq_entries_ok (st_entries st)"
proof -
  assume inv: "faq_inv st"
  have "entry_fp = (\<lambda>e. (\<lambda>p. (fst p, case snd p of None \<Rightarrow> [] | Some a \<Rightarrow> a)) (question e, answer e))"
    by (auto simp: entry_fp_def fun_eq_iff)
  then have "distinct (map (\<lambda>e. (question e, answer e)) (st_entries st))"
    using inv distinct_map_inner [of "\<lambda>p. (fst p, case snd p of None \<Rightarrow> [] | Some a \<Rightarrow> a)"
        "\<lambda>e. (question e, answer e)" "st_entries st"]
    by (simp add: faq_inv_def)
  then show ?thesis using inv
    by (auto simp: faq_inv_def faq_entries_ok_def FAQ_ENTRY_LIMIT_def list_all_iff)
qed

lemma faq_entries_of_ok: "faq_entries_ok (faq_entries_of container)"
proof -
  let ?init = "\<lparr>st_entries = [], section_fingerprints = {}, current_question_text = None,
                  current_answers = [], current_answer_seen = {}\<rparr>"
  let ?fin = "faq_walk (question_text_pool_of container) (iter_dom_descendants container) ?init"
  have "faq_inv ?init" by (simp add: faq_inv_def)
  then have w: "faq_inv ?fin" by (rule faq_walk_inv)
  have "faq_inv (if truthy (current_question_text ?fin) \<and> length (st_entries ?fin) < FAQ_ENTRY_LIMIT
                then flush_entry ?fin else ?fin)"
    using w flush_entry_inv [OF w] by simp
  then show ?thesis
    unfolding faq_entries_of_def Let_def by (rule faq_inv_entries_ok)
qed

lemma faqs_loop_ok:
  "list_all (\<lambda>s. faq_entries_ok (entries s)) (fst st) \<Longrightarrow>
   list_all (\<lambda>s. faq_entries_ok (entries s)) (fst (faqs_loop b hs st))"
proof (induction hs arbitrary: st)
  case Nil
  then show ?case by simp
next
  case (Cons h hs)
  obtain secs seen where st: "st = (secs, seen)" by (cases st)
  show ?case using Cons.prems Cons.IH [of "(secs, seen)"]
      Cons.IH [of "(secs @ [\<lparr>heading = py_strip (get_text (snd h)),
                              entries = faq_entries_of (or_else (find_ancestor b h container_tags) h)\<rparr>],
                    insert (faq_fingerprint (faq_entries_of (or_else (find_ancestor b h container_tags) h))) seen)"]
    by (simp add: st Let_def faq_entries_of_ok)
qed

text \<open>
  C3.  For every document tree (and for a missing tree) DOM FAQ extraction returns at most
  3 sections; every returned section holds at most 12 entries, no two of which have the
  same (question, answer) pair, and every entry has a non-empty question.  The extractor
  only reads the tree: its result is a function of the tree, so running it again on the
  same tree returns the same list.
\<close>

theorem extract_dom_faqs_bounds:
  "length (extract_dom_faqs builder) \<le> 3
   \<and> list_all (\<lambda>s. faq_entries_ok (entries s)) (extract_dom_faqs builder)"
proof (cases builder)
  case None
  then show ?thesis by (simp add: extract_dom_faqs_def)
next
  case (Some b)
  have "list_all (\<lambda>s. faq_entries_ok (entries s)) (fst (faqs_loop b (iter_tag b ''h2'') ([], {})))"
    by (rule faqs_loop_ok) simp
  then have "list_all (\<lambda>s. faq_entries_ok (entries s)) (take 3 (fst (faqs_loop b (iter_tag b ''h2'') ([], {}))))"
    by (auto simp: list_all_iff dest: in_set_takeD)
  then show ?thesis using Some by (simp add: extract_dom_faqs_def)
qed

section \<open>FAQ reconciliation (C7)\<close>









section \<open>Profile product links (C10)\<close>









section \<open>Target normalisation (C4)\<close>

lemma urlparse_whop:
  "\<exists>p. urlparse (''https://whop.com/'' @ x) = Inr p \<and> scheme p = ''https''"
proof -
  let ?x = "filter (\<lambda>c. \<not> (c = CHR 0x09 \<or> c = CHR 0x0D \<or> c = CHR 0x0A)) x"
  have s: "\<exists>r. urlsplit (''https://whop.com/'' @ x) '''' = Inr r \<and> scheme r = ''https''"
    by (simp add: urlsplit_def Let_def find_char_def scheme_char_def splitnetloc_def
          py_lower_def py_lower_char_def split: prod.splits)
  then obtain r where r: "urlsplit (''https://whop.com/'' @ x) '''' = Inr r" "scheme r = ''https''"
    by blast
  show ?thesis
    unfolding urlparse_def urlparse_scheme_def r(1)
    using r(2) by (simp split: prod.splits)
qed

text \<open>
  C4 (as amended).  Target normalisation fails with the empty-target \<open>ValueError\<close> for
  every input that is empty after stripping, and with the unsupported-scheme
  \<open>ValueError\<close> for every other input whose candidate URL parses to a scheme that is
  neither \<open>http\<close> nor \<open>https\<close>.  Its only other failure is the \<open>ValueError\<close> that
  \<open>urlparse\<close> itself raises, which can happen only for an input that contains \<open>://\<close>.
  The two documented errors are both \<open>ValueError\<close>s and differ in their message.
\<close>

theorem normalize_target_failures:
  "(py_strip t = [] \<longrightarrow> normalize_target t = Inl empty_target_error)
   \<and> (py_strip t \<noteq> [] \<and> urlparse (target_candidate (py_strip t)) = Inr p
        \<and> scheme p \<notin> {''http'', ''https''} \<longrightarrow>
        normalize_target t = Inl (unsupported_scheme_error (target_candidate (py_strip t))))
   \<and> (normalize_target t = Inl e \<longrightarrow>
        (py_strip t = [] \<and> e = empty_target_error)
        \<or> (py_strip t \<noteq> [] \<and> py_contains ''://'' (py_strip t)
             \<and> urlparse (py_strip t) = Inl e)
        \<or> (py_strip t \<noteq> [] \<and> py_contains ''://'' (py_strip t)
             \<and> e = unsupported_scheme_error (py_strip t)
             \<and> (\<exists>q. urlparse (py_strip t) = Inr q \<and> scheme q \<notin> {''http'', ''https''})))
   \<and> empty_target_error \<noteq> unsupported_scheme_error c"
proof (intro conjI impI)
  show "empty_target_error \<noteq> unsupported_scheme_error c"
    by (simp add: empty_target_error_def unsupported_scheme_error_def)
next
  assume "py_strip t = []"
  then show "normalize_target t = Inl empty_target_error"
    by (simp add: normalize_target_def empty_target_error_def)
next
  assume "py_strip t \<noteq> [] \<and> urlparse (target_candidate (py_strip t)) = Inr p
        \<and> scheme p \<notin> {''http'', ''https''}"
  then show "normalize_target t = Inl (unsupported_scheme_error (target_candidate (py_strip t)))"
    by (simp add: normalize_target_def unsupported_scheme_error_def Let_def)
next
  assume f: "normalize_target t = Inl e"
  show "(py_strip t = [] \<and> e = empty_target_error)
        \<or> (py_strip t \<noteq> [] \<and> py_contains ''://'' (py_strip t)
             \<and> urlparse (py_strip t) = Inl e)
        \<or> (py_strip t \<noteq> [] \<and> py_contains ''://'' (py_strip t)
             \<and> e = unsupported_scheme_error (py_strip t)
             \<and> (\<exists>q. urlparse (py_strip t) = Inr q \<and> scheme q \<notin> {''http'', ''https''}))"
  proof (cases "py_strip t = []")
    case True
    then show ?thesis using f by (simp add: normalize_target_def empty_target_error_def)
  next
    case False
    show ?thesis
    proof (cases "py_contains ''://'' (py_strip t)")
      case True
      then have c: "target_candidate (py_strip t) = py_strip t" by (simp add: target_candidate_def)
      show ?thesis using f False True
        by (auto simp: normalize_target_def c Let_def unsupported_scheme_error_def
              split: sum.splits if_splits)
    next
      case nc: False
      then obtain x where "target_candidate (py_strip t) = ''https://whop.com/'' @ x"
        by (simp add: target_candidate_def Let_def)
      with urlparse_whop [of x] obtain p where
        "urlparse (target_candidate (py_strip t)) = Inr p" "scheme p = ''https''" by auto
      then show ?thesis using f False
        by (simp add: normalize_target_def Let_def)
    qed
  qed
qed

theorem normalize_target_failures_witness:
  "normalize_target ''   '' = Inl empty_target_error
   \<and> normalize_target ''ftp://a/b'' = Inl (unsupported_scheme_error ''ftp://a/b'')
   \<and> urlparse ''http://['' = Inl (ValueError ''Invalid IPv6 URL'')"
proof -
  have 1: "py_strip ''   '' = []" by code_simp
  have 2: "py_strip ''ftp://a/b'' \<noteq> []"
    "target_candidate (py_strip ''ftp://a/b'') = ''ftp://a/b''"
    "urlparse ''ftp://a/b'' = Inr \<lparr>scheme = ''ftp'', netloc = ''a'', path = ''/b'',
                                     params = [], query = [], fragment = []\<rparr>"
    by code_simp+
  have 3: "normalize_target ''http://['' = Inl (ValueError ''Invalid IPv6 URL'')"
    "py_strip ''http://['' = ''http://[''"
    by code_simp+
  have a: "normalize_target ''   '' = Inl empty_target_error"
    using normalize_target_failures [of "''   ''"] 1 by blast
  have b: "normalize_target ''ftp://a/b'' = Inl (unsupported_scheme_error ''ftp://a/b'')"
    using normalize_target_failures [of "''ftp://a/b''"
        "\<lparr>scheme = ''ftp'', netloc = ''a'', path = ''/b'',
          params = [], query = [], fragment = []\<rparr>"] 2
    by simp
  have c: "urlparse ''http://['' = Inl (ValueError ''Invalid IPv6 URL'')"
    using normalize_target_failures [of "''http://[''" _ "ValueError ''Invalid IPv6 URL''"] 3
    by (auto simp: unsupported_scheme_error_def)
  show ?thesis using a b c by blast
qed

text \<open>
  C4 as stated fails: \<open>http://[\<close> is not empty and has no unsupported scheme, yet
  normalisation fails, with an error that is neither of the two documented ones.
\<close>

theorem normalize_target_third_failure_counterexample:
  "normalize_target ''http://['' = Inl (ValueError ''Invalid IPv6 URL'')
   \<and> ValueError ''Invalid IPv6 URL'' \<noteq> empty_target_error
   \<and> ValueError ''Invalid IPv6 URL'' \<noteq> unsupported_scheme_error ''http://[''"
  by code_simp


section \<open>Review counts (C6)\<close>











end
